theory Spec2Isabelle
  imports Complex_Main
begin

section \<open>The annotation document\<close>

text \<open>
  The karaoke document is a tree of tokens: blocks hold lines, lines hold words, words
  hold characters. Every level carries the same five fields (\<^verbatim>\<open>text\<close>,
  \<^verbatim>\<open>start\<close>, \<^verbatim>\<open>end\<close>, \<^verbatim>\<open>voice\<close>, \<^verbatim>\<open>position\<close>) and one child array
  (\<^verbatim>\<open>lines\<close>, \<^verbatim>\<open>words\<close>, \<^verbatim>\<open>chars\<close>), so one record type with the child field
  as a parameter models all four. The \<^verbatim>\<open>words\<close> and \<^verbatim>\<open>chars\<close> arrays may be absent
  (\<open>None\<close>); \<^verbatim>\<open>lines\<close> is always present, the code reads it without a check.

  Times are integer milliseconds (the recorder writes \<^verbatim>\<open>Math.round\<close> values), a voice
  is an integer with 0 for "unassigned". JavaScript numbers that are not integers (clock
  and seek times, interpolated times before rounding, progress percentages) are doubles,
  modelled in the next section.

  The top-level \<^verbatim>\<open>version\<close>, \<^verbatim>\<open>audioFile\<close> and \<^verbatim>\<open>voices\<close> fields are copied
  unchanged by every function modelled here, so a document is its list of blocks.
\<close>

record 'k token =
  tk_text :: string
  tk_start :: int
  tk_end :: int
  tk_voice :: int
  tk_position :: string
  tk_kids :: 'k

type_synonym chr = "unit token"
type_synonym word = "chr list option token"
type_synonym line = "word list option token"
type_synonym block = "line list token"
type_synonym document = "block list"

text \<open>\<^verbatim>\<open>a || b\<close> on voice numbers: \<open>a\<close> unless it is 0.\<close>

definition js_or :: "int \<Rightarrow> int \<Rightarrow> int" where
  "js_or a b = (if a \<noteq> 0 then a else b)"

section \<open>JavaScript numbers\<close>

text \<open>
  A JavaScript number is an IEEE 754 double. A finite double is modelled by the rational
  it denotes, and every arithmetic operation of the source by the exact operation
  followed by the rounding \<open>toDouble\<close> to the nearest double: 53 significant bits,
  a tie going to the even significand, and below \<open>2 powi (- 1022)\<close> the fixed grid
  \<open>2 powi (- 1074)\<close> of the subnormal numbers. The exponent is not bounded above, so
  the model covers the operations whose result stays below \<open>2 ^ 1024\<close> (where a
  double overflows to \<^verbatim>\<open>Infinity\<close>); the clock values and millisecond stamps of a
  track are far below that. Integers up to \<open>2 ^ 53\<close>, in particular array indexes and
  lengths, are doubles themselves and enter the operations as they are.

  \<open>floorlog2 n\<close> is the position of the leading bit of \<open>n \<ge> 1\<close>, and
  \<open>exponentOf x\<close> the exponent \<open>e\<close> with \<open>2 powi e \<le> x < 2 powi (e + 1)\<close> of a
  positive \<open>x\<close>.
\<close>

function floorlog2 :: "int \<Rightarrow> int" where
  "floorlog2 n = (if n \<le> 1 then 0 else 1 + floorlog2 (n div 2))"
  by pat_completeness auto
termination by (relation "measure nat") auto

declare floorlog2.simps [simp del]

definition exponentOf :: "rat \<Rightarrow> int" where
  "exponentOf x = (if 1 \<le> x then floorlog2 \<lfloor>x\<rfloor> else - (1 + floorlog2 (\<lceil>1 / x\<rceil> - 1)))"

text \<open>Rounding to the nearest integer, a tie going to the even one.\<close>

definition roundHalfEven :: "rat \<Rightarrow> int" where
  "roundHalfEven x =
     (let n = \<lfloor>x\<rfloor>; r = x - of_int n
      in if r < 1 / 2 then n else if 1 / 2 < r then n + 1 else if even n then n else n + 1)"

text \<open>
  The distance between neighbouring doubles around a positive \<open>x\<close>, and the rounding
  of \<open>x\<close> to that grid.
\<close>

definition ulpOf :: "rat \<Rightarrow> rat" where
  "ulpOf x = 2 powi (max (exponentOf x) (- 1022) - 52)"

definition roundPositive :: "rat \<Rightarrow> rat" where
  "roundPositive x = of_int (roundHalfEven (x / ulpOf x)) * ulpOf x"

definition toDouble :: "rat \<Rightarrow> rat" where
  "toDouble x = (if x = 0 then 0 else if 0 < x then roundPositive x else - roundPositive (- x))"

text \<open>The operators \<^verbatim>\<open>+\<close>, \<^verbatim>\<open>-\<close>, \<^verbatim>\<open>*\<close> and \<^verbatim>\<open>/\<close> on numbers.\<close>

definition js_add :: "rat \<Rightarrow> rat \<Rightarrow> rat" where
  "js_add a b = toDouble (a + b)"

definition js_sub :: "rat \<Rightarrow> rat \<Rightarrow> rat" where
  "js_sub a b = toDouble (a - b)"

definition js_mul :: "rat \<Rightarrow> rat \<Rightarrow> rat" where
  "js_mul a b = toDouble (a * b)"

text \<open>
  Every division of the modelled functions has a divisor that is not 0 (a count of
  children or characters that a \<^verbatim>\<open>map\<close> is running over, a count tested against 0, the
  length of a token with \<open>start \<noteq> end\<close>).
\<close>

definition js_div :: "rat \<Rightarrow> rat \<Rightarrow> rat" where
  "js_div a b = toDouble (a / b)"

text \<open>
  \<^verbatim>\<open>Math.round\<close>: the nearest integer, a half rounding up. The result is exact: it is
  a double whenever the argument is.
\<close>

definition math_round :: "rat \<Rightarrow> int" where
  "math_round x = \<lfloor>x + 1 / 2\<rfloor>"

section \<open>Playback progress\<close>

text \<open>
  \<^verbatim>\<open>getTokenProgress\<close> of LyricsPlaybackScreen.jsx. \<open>currentTime\<close> is the component's
  clock in seconds. The \<^verbatim>\<open>typeof\<close> guards cannot fire on a token of this type.
\<close>

definition getTokenProgress :: "rat \<Rightarrow> 'k token \<Rightarrow> rat" where
  "getTokenProgress currentTime tok =
     (let currentTimeMs = js_mul currentTime 1000 in
      if tk_start tok = tk_end tok then
        (if currentTimeMs \<ge> of_int (tk_start tok) then 100 else 0)
      else if currentTimeMs < of_int (tk_start tok) then 0
      else if currentTimeMs \<ge> of_int (tk_end tok) then 100
      else
        let progress =
              js_mul (js_div (js_sub currentTimeMs (of_int (tk_start tok)))
                             (js_sub (of_int (tk_end tok)) (of_int (tk_start tok)))) 100
        in max 0 (min 100 progress))"

section \<open>Export cleanup\<close>

text \<open>
  \<^verbatim>\<open>cleanupTimingData\<close> of LyricsInputPage.jsx (the \<^verbatim>\<open>TimingSyncPage\<close> component),
  on the deep copy it makes of a document that has a \<^verbatim>\<open>blocks\<close> array. Its filter
  counts a token as timed when \<^verbatim>\<open>start !== 0 || end !== 0\<close>.
\<close>

definition isTimed :: "'k token \<Rightarrow> bool" where
  "isTimed t \<longleftrightarrow> tk_start t \<noteq> 0 \<or> tk_end t \<noteq> 0"

text \<open>
  The linear distribution that the source writes out three times, once per level:
  \<^verbatim>\<open>tokenDuration = (parent.end - parent.start) / children.length\<close>, child \<open>index\<close> gets
  \<^verbatim>\<open>Math.round(parent.start + index * tokenDuration)\<close> and
  \<^verbatim>\<open>Math.round(parent.start + (index + 1) * tokenDuration)\<close>, and
  \<^verbatim>\<open>voice: child.voice || <fallback>\<close>. The other fields are spread unchanged.
\<close>

definition interpolateChild :: "int \<Rightarrow> rat \<Rightarrow> int \<Rightarrow> nat \<times> 'k token \<Rightarrow> 'k token" where
  "interpolateChild pstart tokenDuration fallbackVoice p =
     (case p of (index, child) \<Rightarrow>
        let startTime = js_add (of_int pstart) (js_mul (of_nat index) tokenDuration);
            endTime = js_add (of_int pstart) (js_mul (of_nat index + 1) tokenDuration)
        in child\<lparr>tk_start := math_round startTime,
                 tk_end := math_round endTime,
                 tk_voice := js_or (tk_voice child) fallbackVoice\<rparr>)"

definition interpolate :: "int \<Rightarrow> int \<Rightarrow> int \<Rightarrow> 'k token list \<Rightarrow> 'k token list" where
  "interpolate pstart pend fallbackVoice children =
     (let totalDuration = js_sub (of_int pend) (of_int pstart);
          tokenCount = length children;
          tokenDuration = js_div totalDuration (of_nat tokenCount)
      in map (interpolateChild pstart tokenDuration fallbackVoice) (enumerate 0 children))"

text \<open>
  The characters of one word. \<open>lineVoice\<close> is the voice of the enclosing line, the last
  fallback of \<^verbatim>\<open>char.voice || word.voice || line.voice\<close>.
\<close>

definition cleanupChars :: "int \<Rightarrow> word \<Rightarrow> word" where
  "cleanupChars lineVoice w =
     (case tk_kids w of
        None \<Rightarrow> w
      | Some chars \<Rightarrow>
          let timedChars = filter isTimed chars in
          if length timedChars = 0 then w\<lparr>tk_kids := None\<rparr>
          else if length timedChars < length chars then
            w\<lparr>tk_kids := Some (interpolate (tk_start w) (tk_end w)
                                 (js_or (tk_voice w) lineVoice) chars)\<rparr>
          else w)"

text \<open>
  The words of one line, then the characters of each word that is left. When the words
  are deleted the characters below them are not visited.
\<close>

definition cleanupWords :: "line \<Rightarrow> line" where
  "cleanupWords l =
     (case tk_kids l of
        None \<Rightarrow> l
      | Some words \<Rightarrow>
          let timedWords = filter isTimed words in
          if length timedWords = 0 then l\<lparr>tk_kids := None\<rparr>
          else
            let words' = (if length timedWords < length words
                          then interpolate (tk_start l) (tk_end l) (tk_voice l) words
                          else words)
            in l\<lparr>tk_kids := Some (map (cleanupChars (tk_voice l)) words')\<rparr>)"

text \<open>
  One block: its lines first (kept as they are when none is timed), then the words and
  characters of every line.
\<close>

definition cleanupLines :: "block \<Rightarrow> line list" where
  "cleanupLines b =
     (let timedLines = filter isTimed (tk_kids b) in
      if length timedLines = 0 then tk_kids b
      else if length timedLines < length (tk_kids b) then
        interpolate (tk_start b) (tk_end b) (tk_voice b) (tk_kids b)
      else tk_kids b)"

definition cleanupBlock :: "block \<Rightarrow> block" where
  "cleanupBlock b = b\<lparr>tk_kids := map cleanupWords (cleanupLines b)\<rparr>"

text \<open>The second pass: a token that has children loses its own text.\<close>

definition clearWordText :: "word \<Rightarrow> word" where
  "clearWordText w =
     (case tk_kids w of
        Some chars \<Rightarrow> if length chars > 0 then w\<lparr>tk_text := []\<rparr> else w
      | None \<Rightarrow> w)"

definition clearLineText :: "line \<Rightarrow> line" where
  "clearLineText l =
     (case tk_kids l of
        Some words \<Rightarrow>
          (if length words > 0 then l\<lparr>tk_text := []\<rparr> else l)
            \<lparr>tk_kids := Some (map clearWordText words)\<rparr>
      | None \<Rightarrow> l)"

definition clearBlockText :: "block \<Rightarrow> block" where
  "clearBlockText b =
     (if length (tk_kids b) > 0 then b\<lparr>tk_text := []\<rparr> else b)
       \<lparr>tk_kids := map clearLineText (tk_kids b)\<rparr>"

definition cleanupTimingData :: "document \<Rightarrow> document" where
  "cleanupTimingData data = map clearBlockText (map cleanupBlock data)"

text \<open>
  The same pass, one level of granularity at a time over the whole document. The
  source nests the three levels inside one traversal; these are the document-wide passes
  it is compared with.
\<close>

definition interpolateLinesPass :: "document \<Rightarrow> document" where
  "interpolateLinesPass data = map (\<lambda>b. b\<lparr>tk_kids := cleanupLines b\<rparr>) data"

definition wordsOfLine :: "line \<Rightarrow> line" where
  "wordsOfLine l =
     (case tk_kids l of
        None \<Rightarrow> l
      | Some words \<Rightarrow>
          let timedWords = filter isTimed words in
          if length timedWords = 0 then l\<lparr>tk_kids := None\<rparr>
          else if length timedWords < length words then
            l\<lparr>tk_kids := Some (interpolate (tk_start l) (tk_end l) (tk_voice l) words)\<rparr>
          else l)"

definition interpolateWordsPass :: "document \<Rightarrow> document" where
  "interpolateWordsPass data =
     map (\<lambda>b. b\<lparr>tk_kids := map wordsOfLine (tk_kids b)\<rparr>) data"

definition charsOfLine :: "line \<Rightarrow> line" where
  "charsOfLine l =
     (case tk_kids l of
        None \<Rightarrow> l
      | Some words \<Rightarrow> l\<lparr>tk_kids := Some (map (cleanupChars (tk_voice l)) words)\<rparr>)"

definition interpolateCharsPass :: "document \<Rightarrow> document" where
  "interpolateCharsPass data =
     map (\<lambda>b. b\<lparr>tk_kids := map charsOfLine (tk_kids b)\<rparr>) data"

definition clearTextPass :: "document \<Rightarrow> document" where
  "clearTextPass data = map clearBlockText data"

text \<open>
  The order the specification states: characters first, then words, then lines
  (bottom-up), followed by the text clearing.
\<close>

definition cleanupBottomUp :: "document \<Rightarrow> document" where
  "cleanupBottomUp data =
     clearTextPass (interpolateLinesPass (interpolateWordsPass (interpolateCharsPass data)))"

text \<open>The order the source has: lines first, then words, then characters (top-down).\<close>

definition cleanupTopDown :: "document \<Rightarrow> document" where
  "cleanupTopDown data =
     clearTextPass (interpolateCharsPass (interpolateWordsPass (interpolateLinesPass data)))"

text \<open>
  A cleaned document in which every \<^verbatim>\<open>words\<close> and \<^verbatim>\<open>chars\<close> array that is present
  has at least one timed member.
\<close>

definition wordHasTimedChars :: "word \<Rightarrow> bool" where
  "wordHasTimedChars w =
     (case tk_kids w of None \<Rightarrow> True | Some chars \<Rightarrow> filter isTimed chars \<noteq> [])"

definition lineHasTimedWords :: "line \<Rightarrow> bool" where
  "lineHasTimedWords l =
     (case tk_kids l of
        None \<Rightarrow> True
      | Some words \<Rightarrow> filter isTimed words \<noteq> [] \<and> list_all wordHasTimedChars words)"

definition arraysHaveTiming :: "document \<Rightarrow> bool" where
  "arraysHaveTiming data = list_all (\<lambda>b. list_all lineHasTimedWords (tk_kids b)) data"

text \<open>The strict mix the interpolation is about: some child timed, but not all.\<close>

definition partlyTimed :: "'k token list \<Rightarrow> bool" where
  "partlyTimed children \<longleftrightarrow>
     0 < length (filter isTimed children)
     \<and> length (filter isTimed children) < length children"

text \<open>
  The time the distribution gives to the boundary before child \<open>i\<close> of \<open>n\<close>:
  \<open>start + i * ((end - start) / n)\<close> in this order, each operation rounded to a double,
  then \<^verbatim>\<open>Math.round\<close>.
\<close>

definition slotTime :: "int \<Rightarrow> int \<Rightarrow> nat \<Rightarrow> nat \<Rightarrow> int" where
  "slotTime pstart pend n i =
     math_round
       (js_add (of_int pstart)
          (js_mul (of_nat i) (js_div (js_sub (of_int pend) (of_int pstart)) (of_nat n))))"

section \<open>The editor session and its token lists\<close>

datatype mode = Blocks | Lines | Words | Chars

datatype stamp = RecStart | RecEnd

datatype error = TypeError

text \<open>
  The component state the engine reads: the document, the recording mode, the cursor
  (every setter in the component keeps it at 0 or above) and the voice being recorded.
\<close>

record session =
  karaokeData :: document
  recordingMode :: mode
  activeTokenIndex :: nat
  currentVoice :: int

text \<open>
  An entry of the flat list \<^verbatim>\<open>getTokensByMode\<close> builds. The fallback entries, made
  from a text when the \<^verbatim>\<open>words\<close> or \<^verbatim>\<open>chars\<close> array is absent, carry
  \<^verbatim>\<open>start: undefined, end: undefined\<close>, here \<open>None\<close>. The \<^verbatim>\<open>type\<close>, \<^verbatim>\<open>index\<close>
  and ancestor-index fields are not read by the functions modelled and are left out.
\<close>

record tokenView =
  v_text :: string
  v_voice :: int
  v_start :: "int option"
  v_end :: "int option"

definition viewOf :: "string \<Rightarrow> int \<Rightarrow> 'k token \<Rightarrow> tokenView" where
  "viewOf txt voice t =
     \<lparr>v_text = txt, v_voice = voice, v_start = Some (tk_start t), v_end = Some (tk_end t)\<rparr>"

definition fallbackView :: "int \<Rightarrow> string \<Rightarrow> tokenView" where
  "fallbackView voice txt = \<lparr>v_text = txt, v_voice = voice, v_start = None, v_end = None\<rparr>"

text \<open>\<^verbatim>\<open>xs.join('\n')\<close>.\<close>

fun joinLines :: "string list \<Rightarrow> string" where
  "joinLines [] = []"
| "joinLines [x] = x"
| "joinLines (x # y # ys) = x @ CHR 0x0A # joinLines (y # ys)"

text \<open>
  \<^verbatim>\<open>text.split(/( )/g)\<close> with the empty pieces dropped: every space is a piece of its
  own, every maximal run of other characters is a piece. \<open>acc\<close> is the run being read.
\<close>

fun splitSpaces :: "string \<Rightarrow> string \<Rightarrow> string list" where
  "splitSpaces acc [] = (if acc = [] then [] else [acc])"
| "splitSpaces acc (c # cs) =
     (if c = CHR '' '' then (if acc = [] then [] else [acc]) @ [[c]] @ splitSpaces [] cs
      else splitSpaces (acc @ [c]) cs)"

text \<open>\<^verbatim>\<open>text.split('')\<close>: one piece per character.\<close>

definition splitChars :: "string \<Rightarrow> string list" where
  "splitChars txt = map (\<lambda>c. [c]) txt"

definition wordViews :: "line \<Rightarrow> tokenView list" where
  "wordViews l =
     (case tk_kids l of
        Some words \<Rightarrow> map (\<lambda>w. viewOf (tk_text w) (js_or (tk_voice w) (tk_voice l)) w) words
      | None \<Rightarrow> map (fallbackView (tk_voice l)) (splitSpaces [] (tk_text l)))"

definition charViewsOfWord :: "line \<Rightarrow> word \<Rightarrow> tokenView list" where
  "charViewsOfWord l w =
     (case tk_kids w of
        Some chars \<Rightarrow>
          map (\<lambda>c. viewOf (tk_text c)
                     (js_or (tk_voice c) (js_or (tk_voice w) (tk_voice l))) c) chars
      | None \<Rightarrow>
          map (fallbackView (js_or (tk_voice w) (tk_voice l))) (splitChars (tk_text w)))"

definition charViews :: "line \<Rightarrow> tokenView list" where
  "charViews l =
     (case tk_kids l of
        Some words \<Rightarrow> concat (map (charViewsOfWord l) words)
      | None \<Rightarrow> map (fallbackView (tk_voice l)) (splitChars (tk_text l)))"

definition getTokensByMode :: "session \<Rightarrow> tokenView list" where
  "getTokensByMode st =
     (case recordingMode st of
        Blocks \<Rightarrow>
          map (\<lambda>b. viewOf (joinLines (map tk_text (tk_kids b))) (tk_voice b) b)
            (karaokeData st)
      | Lines \<Rightarrow>
          concat (map (\<lambda>b. map (\<lambda>l. viewOf (tk_text l) (tk_voice l) l) (tk_kids b))
            (karaokeData st))
      | Words \<Rightarrow> concat (map (\<lambda>b. concat (map wordViews (tk_kids b))) (karaokeData st))
      | Chars \<Rightarrow> concat (map (\<lambda>b. concat (map charViews (tk_kids b))) (karaokeData st)))"

text \<open>\<^verbatim>\<open>tokens[i]\<close>: \<^verbatim>\<open>undefined\<close> out of range.\<close>

definition tokenAt :: "'a list \<Rightarrow> nat \<Rightarrow> 'a option" where
  "tokenAt xs i = (if i < length xs then Some (xs ! i) else None)"

text \<open>
  The characters \<^verbatim>\<open>trim()\<close> removes, among the code units below 256: tab, line feed,
  vertical tab, form feed, carriage return, space and no-break space.
\<close>

definition isWhitespace :: "char \<Rightarrow> bool" where
  "isWhitespace c \<longleftrightarrow> c \<in> {CHR 0x09, CHR 0x0A, CHR 0x0B, CHR 0x0C, CHR 0x0D, CHR 0x20, CHR 0xA0}"

definition trim :: "string \<Rightarrow> string" where
  "trim txt = rev (dropWhile isWhitespace (rev (dropWhile isWhitespace txt)))"

text \<open>
  \<^verbatim>\<open>isSpaceToken\<close>: \<^verbatim>\<open>token && token.text && token.text.trim() === ''\<close>, read as a
  condition. An \<^verbatim>\<open>undefined\<close> token and an empty text are not space tokens.
\<close>

definition isSpaceToken :: "tokenView option \<Rightarrow> bool" where
  "isSpaceToken token =
     (case token of None \<Rightarrow> False | Some t \<Rightarrow> v_text t \<noteq> [] \<and> trim (v_text t) = [])"

section \<open>Bubble-up propagation\<close>

text \<open>
  The propagation functions count a child as timed when
  \<^verbatim>\<open>start > 0 && end > 0\<close>, a stricter test than the export filter.
\<close>

definition isRecorded :: "'k token \<Rightarrow> bool" where
  "isRecorded t \<longleftrightarrow> tk_start t > 0 \<and> tk_end t > 0"

text \<open>
  The body the three propagation functions share: with no recorded child the parent is
  left alone; otherwise \<^verbatim>\<open>Math.min\<close> of the recorded starts and \<^verbatim>\<open>Math.max\<close> of
  the recorded ends are written where \<^verbatim>\<open>shouldUpdateStart\<close> / \<^verbatim>\<open>shouldUpdateEnd\<close>
  hold.
\<close>

definition widenParent :: "'p token \<Rightarrow> 'c token list \<Rightarrow> 'p token" where
  "widenParent parent children =
     (let timed = filter isRecorded children in
      if length timed = 0 then parent
      else
        let childStart = Min (set (map tk_start timed));
            childEnd = Max (set (map tk_end timed));
            shouldUpdateStart = (tk_start parent = 0 \<or> tk_start parent > childStart);
            shouldUpdateEnd = (tk_end parent = 0 \<or> tk_end parent < childEnd);
            parent1 = (if shouldUpdateStart then parent\<lparr>tk_start := childStart\<rparr> else parent)
        in if shouldUpdateEnd then parent1\<lparr>tk_end := childEnd\<rparr> else parent1)"

definition updateBlockTimingFromLines :: "document \<Rightarrow> document" where
  "updateBlockTimingFromLines data = map (\<lambda>b. widenParent b (tk_kids b)) data"

definition widenLine :: "line \<Rightarrow> line" where
  "widenLine l = (case tk_kids l of None \<Rightarrow> l | Some words \<Rightarrow> widenParent l words)"

definition updateParentTimingFromWords :: "document \<Rightarrow> document" where
  "updateParentTimingFromWords data =
     updateBlockTimingFromLines (map (\<lambda>b. b\<lparr>tk_kids := map widenLine (tk_kids b)\<rparr>) data)"

definition widenWord :: "word \<Rightarrow> word" where
  "widenWord w = (case tk_kids w of None \<Rightarrow> w | Some chars \<Rightarrow> widenParent w chars)"

definition widenWordsOfLine :: "line \<Rightarrow> line" where
  "widenWordsOfLine l =
     (case tk_kids l of None \<Rightarrow> l | Some words \<Rightarrow> l\<lparr>tk_kids := Some (map widenWord words)\<rparr>)"

definition updateParentTimingFromChars :: "document \<Rightarrow> document" where
  "updateParentTimingFromChars data =
     updateParentTimingFromWords
       (map (\<lambda>b. b\<lparr>tk_kids := map widenWordsOfLine (tk_kids b)\<rparr>) data)"

section \<open>Recording a timestamp\<close>

text \<open>The flat arrays \<^verbatim>\<open>recordTimestamp\<close> indexes; an absent array counts as empty.\<close>

definition wordsOf :: "line \<Rightarrow> word list" where
  "wordsOf l = (case tk_kids l of None \<Rightarrow> [] | Some words \<Rightarrow> words)"

definition charsOf :: "word \<Rightarrow> chr list" where
  "charsOf w = (case tk_kids w of None \<Rightarrow> [] | Some chars \<Rightarrow> chars)"

definition charsOfLineFlat :: "line \<Rightarrow> chr list" where
  "charsOfLineFlat l = concat (map charsOf (wordsOf l))"

definition allLines :: "document \<Rightarrow> line list" where
  "allLines data = concat (map tk_kids data)"

definition allWords :: "document \<Rightarrow> word list" where
  "allWords data = concat (map (\<lambda>b. concat (map wordsOf (tk_kids b))) data)"

definition allChars :: "document \<Rightarrow> chr list" where
  "allChars data = concat (map (\<lambda>b. concat (map charsOfLineFlat (tk_kids b))) data)"

text \<open>
  The write \<^verbatim>\<open>token[type] = currentTime\<close>, with the voice stamped on a start.
\<close>

definition setStamp :: "stamp \<Rightarrow> int \<Rightarrow> int \<Rightarrow> 'k token \<Rightarrow> 'k token" where
  "setStamp type currentTime voice t =
     (case type of
        RecStart \<Rightarrow> t\<lparr>tk_start := currentTime, tk_voice := voice\<rparr>
      | RecEnd \<Rightarrow> t\<lparr>tk_end := currentTime\<rparr>)"

text \<open>
  The source mutates element \<open>i\<close> of a flattened array, whose members are the objects of
  the tree. In the model the write goes to the parent that holds element \<open>i\<close>:
  \<open>count\<close> gives the number of elements below a parent, \<open>upd k\<close> writes element \<open>k\<close> below it.
\<close>

fun updateAt :: "('p \<Rightarrow> nat) \<Rightarrow> (nat \<Rightarrow> 'p \<Rightarrow> 'p) \<Rightarrow> nat \<Rightarrow> 'p list \<Rightarrow> 'p list" where
  "updateAt count upd i [] = []"
| "updateAt count upd i (p # ps) =
     (if i < count p then upd i p # ps else p # updateAt count upd (i - count p) ps)"

definition writeLine :: "nat \<Rightarrow> (line \<Rightarrow> line) \<Rightarrow> document \<Rightarrow> document" where
  "writeLine i f data =
     updateAt (\<lambda>b. length (tk_kids b))
       (\<lambda>k b. b\<lparr>tk_kids := (tk_kids b)[k := f (tk_kids b ! k)]\<rparr>) i data"

definition writeWordInLine :: "(word \<Rightarrow> word) \<Rightarrow> nat \<Rightarrow> line \<Rightarrow> line" where
  "writeWordInLine f k l =
     (case tk_kids l of
        None \<Rightarrow> l
      | Some words \<Rightarrow> l\<lparr>tk_kids := Some (words[k := f (words ! k)])\<rparr>)"

definition writeWord :: "nat \<Rightarrow> (word \<Rightarrow> word) \<Rightarrow> document \<Rightarrow> document" where
  "writeWord i f data =
     updateAt (\<lambda>b. length (concat (map wordsOf (tk_kids b))))
       (\<lambda>k b. b\<lparr>tk_kids := updateAt (\<lambda>l. length (wordsOf l)) (writeWordInLine f) k (tk_kids b)\<rparr>)
       i data"

definition writeCharInWord :: "(chr \<Rightarrow> chr) \<Rightarrow> nat \<Rightarrow> word \<Rightarrow> word" where
  "writeCharInWord f k w =
     (case tk_kids w of
        None \<Rightarrow> w
      | Some chars \<Rightarrow> w\<lparr>tk_kids := Some (chars[k := f (chars ! k)])\<rparr>)"

definition writeCharInLine :: "(chr \<Rightarrow> chr) \<Rightarrow> nat \<Rightarrow> line \<Rightarrow> line" where
  "writeCharInLine f k l =
     (case tk_kids l of
        None \<Rightarrow> l
      | Some words \<Rightarrow>
          l\<lparr>tk_kids := Some (updateAt (\<lambda>w. length (charsOf w)) (writeCharInWord f) k words)\<rparr>)"

definition writeChar :: "nat \<Rightarrow> (chr \<Rightarrow> chr) \<Rightarrow> document \<Rightarrow> document" where
  "writeChar i f data =
     updateAt (\<lambda>b. length (concat (map charsOfLineFlat (tk_kids b))))
       (\<lambda>k b. b\<lparr>tk_kids :=
                 updateAt (\<lambda>l. length (charsOfLineFlat l)) (writeCharInLine f) k (tk_kids b)\<rparr>)
       i data"

text \<open>
  \<^verbatim>\<open>recordTimestamp(timestamp, type)\<close>, with the document and an audio element present.
  \<open>timestamp\<close> is in seconds. The result is the document after the call, or the error the
  call throws. The log line after the space-token test reads \<^verbatim>\<open>currentToken.text\<close>:
  on an \<^verbatim>\<open>undefined\<close> token that is a TypeError, thrown before anything is written.
\<close>

definition recordTimestamp :: "session \<Rightarrow> rat \<Rightarrow> stamp \<Rightarrow> error + document" where
  "recordTimestamp st timestamp type =
     (let currentTime = math_round (js_mul timestamp 1000);
          tokens = getTokensByMode st;
          currentToken = tokenAt tokens (activeTokenIndex st);
          updatedData = karaokeData st
      in if isSpaceToken currentToken then Inr updatedData
         else case currentToken of
           None \<Rightarrow> Inl TypeError
         | Some _ \<Rightarrow>
             Inr (case recordingMode st of
               Blocks \<Rightarrow>
                 if activeTokenIndex st < length updatedData
                 then updatedData[activeTokenIndex st :=
                        setStamp type currentTime (currentVoice st)
                          (updatedData ! activeTokenIndex st)]
                 else updatedData
             | Lines \<Rightarrow>
                 if activeTokenIndex st < length (allLines updatedData)
                 then updateBlockTimingFromLines
                        (writeLine (activeTokenIndex st)
                           (setStamp type currentTime (currentVoice st)) updatedData)
                 else updatedData
             | Words \<Rightarrow>
                 if activeTokenIndex st < length (allWords updatedData)
                 then updateParentTimingFromWords
                        (writeWord (activeTokenIndex st)
                           (setStamp type currentTime (currentVoice st)) updatedData)
                 else updatedData
             | Chars \<Rightarrow>
                 if activeTokenIndex st < length (allChars updatedData)
                 then updateParentTimingFromChars
                        (writeChar (activeTokenIndex st)
                           (setStamp type currentTime (currentVoice st)) updatedData)
                 else updatedData))"

text \<open>
  One recording event of a sequence: the controller state it is made in, the clock and
  the kind of stamp. A call that throws leaves the document as it was.
\<close>

record recordEvent =
  ev_mode :: mode
  ev_index :: nat
  ev_voice :: int
  ev_time :: rat
  ev_type :: stamp

definition recordStep :: "document \<Rightarrow> recordEvent \<Rightarrow> document" where
  "recordStep data ev =
     (case recordTimestamp
             \<lparr>karaokeData = data, recordingMode = ev_mode ev,
              activeTokenIndex = ev_index ev, currentVoice = ev_voice ev\<rparr>
             (ev_time ev) (ev_type ev) of
        Inl _ \<Rightarrow> data
      | Inr data' \<Rightarrow> data')"

definition recordAll :: "document \<Rightarrow> recordEvent list \<Rightarrow> document" where
  "recordAll data evs = foldl recordStep data evs"

section \<open>Unlocking modes\<close>

text \<open>
  \<^verbatim>\<open>xs.every(p)\<close> where \<open>p\<close> may throw: elements are tested in order, the first
  \<^verbatim>\<open>false\<close> ends the scan, an exception on the way propagates.
\<close>

fun every :: "('a \<Rightarrow> error + bool) \<Rightarrow> 'a list \<Rightarrow> error + bool" where
  "every p [] = Inr True"
| "every p (x # xs) =
     (case p x of
        Inl e \<Rightarrow> Inl e
      | Inr ok \<Rightarrow> if ok then every p xs else Inr False)"

text \<open>
  \<^verbatim>\<open>isModeCompleted\<close>. The \<^verbatim>\<open>words\<close> and \<^verbatim>\<open>chars\<close> cases call \<^verbatim>\<open>every\<close> on the
  child array without a check: on an absent array that is a TypeError.
\<close>

definition wordsCompleted :: "line \<Rightarrow> error + bool" where
  "wordsCompleted l =
     (case tk_kids l of
        None \<Rightarrow> Inl TypeError
      | Some words \<Rightarrow> every (\<lambda>w. Inr (isRecorded w)) words)"

definition charsCompleted :: "line \<Rightarrow> error + bool" where
  "charsCompleted l =
     (case tk_kids l of
        None \<Rightarrow> Inl TypeError
      | Some words \<Rightarrow>
          every (\<lambda>w. case tk_kids w of
                        None \<Rightarrow> Inl TypeError
                      | Some chars \<Rightarrow> every (\<lambda>c. Inr (isRecorded c)) chars) words)"

definition isModeCompleted :: "document \<Rightarrow> mode \<Rightarrow> error + bool" where
  "isModeCompleted data m =
     (case m of
        Blocks \<Rightarrow> every (\<lambda>b. Inr (isRecorded b)) data
      | Lines \<Rightarrow> every (\<lambda>b. every (\<lambda>l. Inr (isRecorded l)) (tk_kids b)) data
      | Words \<Rightarrow> every (\<lambda>b. every wordsCompleted (tk_kids b)) data
      | Chars \<Rightarrow> every (\<lambda>b. every charsCompleted (tk_kids b)) data)"

text \<open>\<^verbatim>\<open>getNextRecordingMode\<close>.\<close>

fun getNextRecordingMode :: "mode \<Rightarrow> mode option" where
  "getNextRecordingMode Blocks = Some Lines"
| "getNextRecordingMode Lines = Some Words"
| "getNextRecordingMode Words = Some Chars"
| "getNextRecordingMode Chars = None"

text \<open>\<^verbatim>\<open>isCurrentTokenRecorded\<close>.\<close>

definition isCurrentTokenRecorded :: "session \<Rightarrow> bool" where
  "isCurrentTokenRecorded st =
     (case tokenAt (getTokensByMode st) (activeTokenIndex st) of
        None \<Rightarrow> False
      | Some currentToken \<Rightarrow>
          (case (v_start currentToken, v_end currentToken) of
             (Some s, Some e) \<Rightarrow> s > 0 \<and> e > 0
           | _ \<Rightarrow> False))"

definition pushIfMissing :: "mode \<Rightarrow> mode list \<Rightarrow> mode list" where
  "pushIfMissing m unlocked = (if m \<in> set unlocked then unlocked else unlocked @ [m])"

text \<open>
  The completion loop of \<^verbatim>\<open>updateUnlockedModes\<close>: it runs over \<^verbatim>\<open>modes[1]\<close> and
  \<^verbatim>\<open>modes[2]\<close> (lines, words) and stops at the first mode that is not completed.
\<close>

fun completionLoop :: "document \<Rightarrow> mode list \<Rightarrow> mode list \<Rightarrow> error + mode list" where
  "completionLoop data [] unlocked = Inr unlocked"
| "completionLoop data (m # ms) unlocked =
     (case isModeCompleted data m of
        Inl e \<Rightarrow> Inl e
      | Inr done \<Rightarrow>
          if done then
            (case getNextRecordingMode m of
               Some next \<Rightarrow> completionLoop data ms (pushIfMissing next unlocked)
             | None \<Rightarrow> completionLoop data ms unlocked)
          else Inr unlocked)"

text \<open>
  \<^verbatim>\<open>updateUnlockedModes\<close>: the list handed to \<^verbatim>\<open>setUnlockedModes\<close>, or the error
  thrown on the way.
\<close>

definition updateUnlockedModes :: "session \<Rightarrow> error + mode list" where
  "updateUnlockedModes st =
     (case completionLoop (karaokeData st) [Lines, Words] [Blocks, Lines] of
        Inl e \<Rightarrow> Inl e
      | Inr unlocked1 \<Rightarrow>
          let unlocked2 =
                (case getNextRecordingMode (recordingMode st) of
                   Some nextMode \<Rightarrow>
                     if isCurrentTokenRecorded st then pushIfMissing nextMode unlocked1
                     else unlocked1
                 | None \<Rightarrow> unlocked1)
          in Inr (pushIfMissing (recordingMode st) unlocked2))"

section \<open>Seeking to a token\<close>

text \<open>
  The scan loop of \<^verbatim>\<open>handleSeek\<close>, from index \<open>i\<close> on the rest of the list. A token
  whose bounds are numbers matches when \<^verbatim>\<open>start <= t <= end\<close>; failing that, if a next
  token exists and \<^verbatim>\<open>token.end < t < next.start\<close>, the next index is taken. A
  comparison with an \<^verbatim>\<open>undefined\<close> start is false.
\<close>

fun seekScan :: "rat \<Rightarrow> nat \<Rightarrow> tokenView list \<Rightarrow> nat option" where
  "seekScan t i [] = None"
| "seekScan t i (token # rest) =
     (case (v_start token, v_end token) of
        (Some s, Some e) \<Rightarrow>
          if of_int s \<le> t \<and> t \<le> of_int e then Some i
          else if rest \<noteq> [] \<and> of_int e < t
                  \<and> (case v_start (hd rest) of Some s' \<Rightarrow> t < of_int s' | None \<Rightarrow> False)
          then Some (i + 1)
          else seekScan t (i + 1) rest
      | _ \<Rightarrow> seekScan t (i + 1) rest)"

text \<open>
  The index \<^verbatim>\<open>handleSeek\<close> selects for \<open>newTimeMs\<close>, \<open>None\<close> for
  \<^verbatim>\<open>targetTokenIndex === -1\<close> (and for an empty list): after the scan, the last token
  if the time is past its end, then the first token if the time is before its start.
\<close>

definition seekTarget :: "rat \<Rightarrow> tokenView list \<Rightarrow> nat option" where
  "seekTarget newTimeMs tokens =
     (if length tokens > 0 then
        (case seekScan newTimeMs 0 tokens of
           Some i \<Rightarrow> Some i
         | None \<Rightarrow>
             (case v_end (last tokens) of
                Some e \<Rightarrow>
                  if newTimeMs > of_int e then Some (length tokens - 1)
                  else (case v_start (hd tokens) of
                          Some s \<Rightarrow> if newTimeMs < of_int s then Some 0 else None
                        | None \<Rightarrow> None)
              | None \<Rightarrow>
                  (case v_start (hd tokens) of
                     Some s \<Rightarrow> if newTimeMs < of_int s then Some 0 else None
                   | None \<Rightarrow> None)))
      else None)"

text \<open>
  The cursor after a sync-locked seek to \<open>newTime\<close> seconds: moved to the target when
  there is one.
\<close>

definition handleSeek :: "session \<Rightarrow> rat \<Rightarrow> nat" where
  "handleSeek st newTime =
     (case seekTarget (js_mul newTime 1000) (getTokensByMode st) of
        Some targetTokenIndex \<Rightarrow> targetTokenIndex
      | None \<Rightarrow> activeTokenIndex st)"

section \<open>Fallback linear timing\<close>

text \<open>
  \<^verbatim>\<open>generateLinearTiming\<close> of LyricsPlaybackScreen.jsx, called on a deep copy of a
  document without timing. \<open>duration\<close> is the audio length in seconds.

  \<^verbatim>\<open>xs.reduce((sum, x) => sum + f(x), 0)\<close> where \<open>f\<close> may throw.
\<close>

fun reduceSum :: "('a \<Rightarrow> error + nat) \<Rightarrow> nat \<Rightarrow> 'a list \<Rightarrow> error + nat" where
  "reduceSum f acc [] = Inr acc"
| "reduceSum f acc (x # xs) =
     (case f x of Inl e \<Rightarrow> Inl e | Inr n \<Rightarrow> reduceSum f (acc + n) xs)"

text \<open>
  The count \<^verbatim>\<open>totalChars\<close>: the text lengths of all words. \<^verbatim>\<open>line.words.reduce\<close> on a
  line without a \<^verbatim>\<open>words\<close> array is a TypeError.
\<close>

definition lineTextLength :: "line \<Rightarrow> error + nat" where
  "lineTextLength l =
     (case tk_kids l of
        None \<Rightarrow> Inl TypeError
      | Some words \<Rightarrow> reduceSum (\<lambda>w. Inr (length (tk_text w))) 0 words)"

definition totalTextLength :: "document \<Rightarrow> error + nat" where
  "totalTextLength json = reduceSum (\<lambda>b. reduceSum lineTextLength 0 (tk_kids b)) 0 json"

text \<open>
  A \<^verbatim>\<open>forEach\<close> whose body advances the running clock \<^verbatim>\<open>currentTimeMs\<close>: the body
  returns the rewritten element and the clock after it.
\<close>

fun forEachTimed :: "(rat \<Rightarrow> 'a \<Rightarrow> 'b \<times> rat) \<Rightarrow> rat \<Rightarrow> 'a list \<Rightarrow> 'b list \<times> rat" where
  "forEachTimed f currentTimeMs [] = ([], currentTimeMs)"
| "forEachTimed f currentTimeMs (x # xs) =
     (case f currentTimeMs x of
        (y, currentTimeMs1) \<Rightarrow>
          (case forEachTimed f currentTimeMs1 xs of
             (ys, currentTimeMs2) \<Rightarrow> (y # ys, currentTimeMs2)))"

text \<open>
  The character token made for position \<open>index\<close> of a word's text; \<^verbatim>\<open>word.voice || 0\<close>
  and \<^verbatim>\<open>word.position || ""\<close> are the word's own values.
\<close>

definition linearChar :: "word \<Rightarrow> rat \<Rightarrow> rat \<Rightarrow> nat \<times> char \<Rightarrow> chr" where
  "linearChar w wordStartTime wordDuration p =
     (case p of (index, c) \<Rightarrow>
        let charStartTime =
              js_add wordStartTime
                (js_mul (of_nat index) (js_div wordDuration (of_nat (length (tk_text w)))));
            charEndTime =
              js_add wordStartTime
                (js_mul (of_nat index + 1) (js_div wordDuration (of_nat (length (tk_text w)))))
        in \<lparr>tk_text = [c], tk_start = math_round charStartTime, tk_end = math_round charEndTime,
            tk_voice = js_or (tk_voice w) 0, tk_position = tk_position w, tk_kids = ()\<rparr>)"

definition linearWord :: "rat \<Rightarrow> rat \<Rightarrow> word \<Rightarrow> word \<times> rat" where
  "linearWord msPerChar currentTimeMs w =
     (let wordStartTime = currentTimeMs;
          wordDuration = js_mul (of_nat (length (tk_text w))) msPerChar
      in (w\<lparr>tk_start := math_round wordStartTime,
             tk_end := math_round (js_add wordStartTime wordDuration),
             tk_kids := Some (map (linearChar w wordStartTime wordDuration)
                                (enumerate 0 (tk_text w)))\<rparr>,
          js_add currentTimeMs wordDuration))"

text \<open>
  A line and a block take the clock before and after their children as bounds. A line
  without a \<^verbatim>\<open>words\<close> array is not met here: the count above has thrown on it.
\<close>

definition linearLine :: "rat \<Rightarrow> rat \<Rightarrow> line \<Rightarrow> line \<times> rat" where
  "linearLine msPerChar currentTimeMs l =
     (case tk_kids l of
        None \<Rightarrow> (l, currentTimeMs)
      | Some words \<Rightarrow>
          (case forEachTimed (linearWord msPerChar) currentTimeMs words of
             (words', currentTimeMs') \<Rightarrow>
               (l\<lparr>tk_start := math_round currentTimeMs,
                  tk_end := math_round currentTimeMs',
                  tk_kids := Some words'\<rparr>,
                currentTimeMs')))"

definition linearBlock :: "rat \<Rightarrow> rat \<Rightarrow> block \<Rightarrow> block \<times> rat" where
  "linearBlock msPerChar currentTimeMs b =
     (case forEachTimed (linearLine msPerChar) currentTimeMs (tk_kids b) of
        (lines', currentTimeMs') \<Rightarrow>
          (b\<lparr>tk_start := math_round currentTimeMs,
             tk_end := math_round currentTimeMs',
             tk_kids := lines'\<rparr>,
           currentTimeMs'))"

text \<open>
  The function returns the document unchanged when \<^verbatim>\<open>!duration\<close> and when
  \<^verbatim>\<open>totalChars === 0\<close>.
\<close>

definition generateLinearTiming :: "rat \<Rightarrow> document \<Rightarrow> error + document" where
  "generateLinearTiming duration json =
     (if duration = 0 then Inr json
      else
        let totalDurationMs = js_mul duration 1000 in
        case totalTextLength json of
          Inl e \<Rightarrow> Inl e
        | Inr totalChars \<Rightarrow>
            if totalChars = 0 then Inr json
            else
              let msPerChar = js_div totalDurationMs (of_nat totalChars)
              in Inr (fst (forEachTimed (linearBlock msPerChar) 0 json)))"

text \<open>
  \<^verbatim>\<open>processedLyricsJson\<close>: the document the playback screen shows. A document in which
  some token has a positive \<^verbatim>\<open>start\<close> or \<^verbatim>\<open>end\<close> is used as it is; any other
  document is handed, as a deep copy, to \<^verbatim>\<open>generateLinearTiming\<close>. The optional
  chaining \<^verbatim>\<open>words?.some\<close>, \<^verbatim>\<open>chars?.some\<close> makes an absent array count as untimed.
\<close>

definition hasPositiveTime :: "'k token \<Rightarrow> bool" where
  "hasPositiveTime t \<longleftrightarrow> 0 < tk_start t \<or> 0 < tk_end t"

definition someOf :: "('a \<Rightarrow> bool) \<Rightarrow> 'a list option \<Rightarrow> bool" where
  "someOf p xs = (case xs of None \<Rightarrow> False | Some ys \<Rightarrow> list_ex p ys)"

definition hasTimingData :: "document \<Rightarrow> bool" where
  "hasTimingData lyricsJson =
     list_ex (\<lambda>block. hasPositiveTime block
        \<or> list_ex (\<lambda>line. hasPositiveTime line
             \<or> someOf (\<lambda>word. hasPositiveTime word \<or> someOf hasPositiveTime (tk_kids word))
                  (tk_kids line))
             (tk_kids block))
       lyricsJson"

definition processedLyricsJson :: "rat \<Rightarrow> document \<Rightarrow> error + document" where
  "processedLyricsJson duration lyricsJson =
     (if hasTimingData lyricsJson then Inr lyricsJson
      else generateLinearTiming duration lyricsJson)"

section \<open>Vocabulary of the properties\<close>

text \<open>The timing a token carries: start, end and voice.\<close>

definition timingOf :: "'k token \<Rightarrow> int \<times> int \<times> int" where
  "timingOf t = (tk_start t, tk_end t, tk_voice t)"

text \<open>
  The even distribution of a parent's span over its children, as a list of timings:
  child \<open>i\<close> of \<open>N\<close> gets the slot times \<open>i\<close> and \<open>i + 1\<close>, that is
  \<open>start + i * ((end - start) / N)\<close> and \<open>start + (i + 1) * ((end - start) / N)\<close>
  in double arithmetic, each rounded to an integer, and its own voice or, when it has
  none, the fallback voice.
\<close>

definition evenSlots :: "'p token \<Rightarrow> int \<Rightarrow> 'k token list \<Rightarrow> (int \<times> int \<times> int) list" where
  "evenSlots parent fallbackVoice children =
     map (\<lambda>(i, child).
            (slotTime (tk_start parent) (tk_end parent) (length children) i,
             slotTime (tk_start parent) (tk_end parent) (length children) (Suc i),
             js_or (tk_voice child) fallbackVoice))
       (enumerate 0 children)"

text \<open>
  Widening of one ancestor by propagation: a bound that was set (not 0) does not move
  inwards and stays set.
\<close>

definition widened :: "'p token \<Rightarrow> 'p token \<Rightarrow> bool" where
  "widened old new \<longleftrightarrow>
     (tk_start old \<noteq> 0 \<longrightarrow> tk_start new \<le> tk_start old \<and> tk_start new \<noteq> 0)
     \<and> (tk_end old \<noteq> 0 \<longrightarrow> tk_end old \<le> tk_end new \<and> tk_end new \<noteq> 0)"

text \<open>
  The recomputation of one ancestor from its children, timed in the propagation's sense
  (\<open>isRecorded\<close>): with no timed child the bounds stay; otherwise the start becomes the
  minimum of the timed children's starts if it was unset or larger, and the end the
  maximum of their ends if it was unset or smaller.
\<close>

definition recomputed :: "'p token \<Rightarrow> 'p token \<Rightarrow> 'c token list \<Rightarrow> bool" where
  "recomputed old new children \<longleftrightarrow>
     (let timed = filter isRecorded children in
      if timed = [] then tk_start new = tk_start old \<and> tk_end new = tk_end old
      else
        tk_start new =
          (if tk_start old = 0 \<or> Min (set (map tk_start timed)) < tk_start old
           then Min (set (map tk_start timed)) else tk_start old)
        \<and> tk_end new =
          (if tk_end old = 0 \<or> tk_end old < Max (set (map tk_end timed))
           then Max (set (map tk_end timed)) else tk_end old))"

text \<open>
  The same for every block, every line and every word of a document \<open>d\<close> and its
  successor \<open>d'\<close>, each against the children it has in \<open>d'\<close>.
\<close>

definition blocksRecomputed :: "document \<Rightarrow> document \<Rightarrow> bool" where
  "blocksRecomputed d d' = list_all2 (\<lambda>b b'. recomputed b b' (tk_kids b')) d d'"

definition linesRecomputed :: "document \<Rightarrow> document \<Rightarrow> bool" where
  "linesRecomputed d d' =
     list_all2 (\<lambda>l l'. recomputed l l' (wordsOf l')) (allLines d) (allLines d')"

definition wordsRecomputed :: "document \<Rightarrow> document \<Rightarrow> bool" where
  "wordsRecomputed d d' =
     list_all2 (\<lambda>w w'. recomputed w w' (charsOf w')) (allWords d) (allWords d')"

text \<open>
  The nodes of the tree without their timing and voice: what the recorder must not
  change.
\<close>

definition skeletonChr :: "chr \<Rightarrow> string \<times> string" where
  "skeletonChr c = (tk_text c, tk_position c)"

definition skeletonWord :: "word \<Rightarrow> string \<times> string \<times> (string \<times> string) list option" where
  "skeletonWord w = (tk_text w, tk_position w, map_option (map skeletonChr) (tk_kids w))"

definition skeletonLine ::
  "line \<Rightarrow> string \<times> string \<times> (string \<times> string \<times> (string \<times> string) list option) list option" where
  "skeletonLine l = (tk_text l, tk_position l, map_option (map skeletonWord) (tk_kids l))"

definition skeletonBlock ::
  "block \<Rightarrow> string \<times> string
     \<times> (string \<times> string \<times> (string \<times> string \<times> (string \<times> string) list option) list option) list" where
  "skeletonBlock b = (tk_text b, tk_position b, map skeletonLine (tk_kids b))"

definition skeleton ::
  "document \<Rightarrow> (string \<times> string
     \<times> (string \<times> string \<times> (string \<times> string \<times> (string \<times> string) list option) list option) list) list" where
  "skeleton d = map skeletonBlock d"

text \<open>
  The bounds of a list entry as numbers, and the test \<^verbatim>\<open>start <= t <= end\<close> of the
  seek scan. A list is chronological when every entry has numeric bounds with
  \<open>start \<le> end\<close> and ends no later than the next entry starts.
\<close>

definition startOf :: "tokenView \<Rightarrow> int" where
  "startOf x = (case v_start x of Some s \<Rightarrow> s | None \<Rightarrow> 0)"

definition endOf :: "tokenView \<Rightarrow> int" where
  "endOf x = (case v_end x of Some e \<Rightarrow> e | None \<Rightarrow> 0)"

definition numericBounds :: "tokenView \<Rightarrow> bool" where
  "numericBounds x \<longleftrightarrow> v_start x \<noteq> None \<and> v_end x \<noteq> None"

definition contains :: "rat \<Rightarrow> tokenView \<Rightarrow> bool" where
  "contains t x \<longleftrightarrow> numericBounds x \<and> of_int (startOf x) \<le> t \<and> t \<le> of_int (endOf x)"

fun chronological :: "tokenView list \<Rightarrow> bool" where
  "chronological [] = True"
| "chronological [x] = (numericBounds x \<and> startOf x \<le> endOf x)"
| "chronological (x # y # rest) =
     (numericBounds x \<and> startOf x \<le> endOf x \<and> endOf x \<le> startOf y
      \<and> chronological (y # rest))"

text \<open>
  The closed form of the linear timing. The running clock of the source is the double
  sum of the word durations met so far, whatever the lines and blocks they are in:
  \<open>withClocks\<close> pairs every element of a list with the clock before it. A stamped word
  runs from the rounded clock before it to the rounded clock after it, and its character
  \<open>k\<close> from the rounded \<open>clock + k * (wordDuration / length)\<close> to the same with
  \<open>k + 1\<close>; a stamped line or block runs from the clock before its first word to the
  clock after its last.
\<close>

definition charsIn :: "word \<Rightarrow> nat" where
  "charsIn w = length (tk_text w)"

definition charsInLine :: "line \<Rightarrow> nat" where
  "charsInLine l = sum_list (map charsIn (wordsOf l))"

definition charsInBlock :: "block \<Rightarrow> nat" where
  "charsInBlock b = sum_list (map charsInLine (tk_kids b))"

definition totalCharacterCount :: "document \<Rightarrow> nat" where
  "totalCharacterCount json = sum_list (map charsInBlock json)"

definition perCharacter :: "rat \<Rightarrow> document \<Rightarrow> rat" where
  "perCharacter duration json =
     js_div (js_mul duration 1000) (of_nat (totalCharacterCount json))"

definition wordDuration :: "rat \<Rightarrow> word \<Rightarrow> rat" where
  "wordDuration msPerChar w = js_mul (of_nat (charsIn w)) msPerChar"

definition clockAfterWord :: "rat \<Rightarrow> rat \<Rightarrow> word \<Rightarrow> rat" where
  "clockAfterWord msPerChar clock w = js_add clock (wordDuration msPerChar w)"

definition clockAfterLine :: "rat \<Rightarrow> rat \<Rightarrow> line \<Rightarrow> rat" where
  "clockAfterLine msPerChar clock l = foldl (clockAfterWord msPerChar) clock (wordsOf l)"

definition clockAfterBlock :: "rat \<Rightarrow> rat \<Rightarrow> block \<Rightarrow> rat" where
  "clockAfterBlock msPerChar clock b = foldl (clockAfterLine msPerChar) clock (tk_kids b)"

fun withClocks :: "(rat \<Rightarrow> 'a \<Rightarrow> rat) \<Rightarrow> rat \<Rightarrow> 'a list \<Rightarrow> (rat \<times> 'a) list" where
  "withClocks after clock [] = []"
| "withClocks after clock (x # xs) = (clock, x) # withClocks after (after clock x) xs"

definition charTime :: "rat \<Rightarrow> word \<Rightarrow> rat \<Rightarrow> nat \<Rightarrow> int" where
  "charTime msPerChar w clock k =
     math_round
       (js_add clock
          (js_mul (of_nat k) (js_div (wordDuration msPerChar w) (of_nat (charsIn w)))))"

definition stampedChar :: "rat \<Rightarrow> word \<Rightarrow> rat \<Rightarrow> nat \<times> char \<Rightarrow> chr" where
  "stampedChar msPerChar w clock p =
     (case p of (k, c) \<Rightarrow>
        \<lparr>tk_text = [c], tk_start = charTime msPerChar w clock k,
         tk_end = charTime msPerChar w clock (Suc k),
         tk_voice = tk_voice w, tk_position = tk_position w, tk_kids = ()\<rparr>)"

definition stampedWord :: "rat \<Rightarrow> rat \<times> word \<Rightarrow> word" where
  "stampedWord msPerChar p =
     (case p of (clock, w) \<Rightarrow>
        w\<lparr>tk_start := math_round clock,
          tk_end := math_round (clockAfterWord msPerChar clock w),
          tk_kids := Some (map (stampedChar msPerChar w clock) (enumerate 0 (tk_text w)))\<rparr>)"

definition stampedLine :: "rat \<Rightarrow> rat \<times> line \<Rightarrow> line" where
  "stampedLine msPerChar p =
     (case p of (clock, l) \<Rightarrow>
        l\<lparr>tk_start := math_round clock,
          tk_end := math_round (clockAfterLine msPerChar clock l),
          tk_kids := Some (map (stampedWord msPerChar)
                             (withClocks (clockAfterWord msPerChar) clock (wordsOf l)))\<rparr>)"

definition stampedBlock :: "rat \<Rightarrow> rat \<times> block \<Rightarrow> block" where
  "stampedBlock msPerChar p =
     (case p of (clock, b) \<Rightarrow>
        b\<lparr>tk_start := math_round clock,
          tk_end := math_round (clockAfterBlock msPerChar clock b),
          tk_kids := map (stampedLine msPerChar)
                       (withClocks (clockAfterLine msPerChar) clock (tk_kids b))\<rparr>)"

definition stampedDocument :: "rat \<Rightarrow> document \<Rightarrow> document" where
  "stampedDocument msPerChar json =
     map (stampedBlock msPerChar) (withClocks (clockAfterBlock msPerChar) 0 json)"

text \<open>
  A list of tokens is chained when every token ends no earlier than it starts and the
  next token starts where it ends.
\<close>

fun chained :: "'k token list \<Rightarrow> bool" where
  "chained [] = True"
| "chained [x] = (tk_start x \<le> tk_end x)"
| "chained (x # y # rest) =
     (tk_start x \<le> tk_end x \<and> tk_end x = tk_start y \<and> chained (y # rest))"

text \<open>The start and end stamps of a list of tokens.\<close>

definition stamps :: "'k token list \<Rightarrow> (int \<times> int) list" where
  "stamps ts = map (\<lambda>t. (tk_start t, tk_end t)) ts"

text \<open>
  A parent spans its children when it starts with the first and ends with the last; a
  word starts with its characters when its start is that of the first.
\<close>

definition spans :: "'p token \<Rightarrow> 'c token list \<Rightarrow> bool" where
  "spans parent children \<longleftrightarrow>
     children = []
     \<or> (tk_start parent = tk_start (hd children) \<and> tk_end parent = tk_end (last children))"

definition wordStarts :: "word \<Rightarrow> bool" where
  "wordStarts w \<longleftrightarrow>
     tk_kids w \<noteq> None \<and> (charsOf w = [] \<or> tk_start w = tk_start (hd (charsOf w)))"

definition lineSpans :: "line \<Rightarrow> bool" where
  "lineSpans l \<longleftrightarrow> spans l (wordsOf l) \<and> list_all wordStarts (wordsOf l)"

definition blockSpans :: "block \<Rightarrow> bool" where
  "blockSpans b \<longleftrightarrow> spans b (tk_kids b) \<and> list_all lineSpans (tk_kids b)"

definition everyLineHasWords :: "document \<Rightarrow> bool" where
  "everyLineHasWords json = list_all (\<lambda>b. list_all (\<lambda>l. tk_kids l \<noteq> None) (tk_kids b)) json"

definition resultOf :: "error + document \<Rightarrow> document" where
  "resultOf r = (case r of Inr d \<Rightarrow> d | Inl e \<Rightarrow> [])"

section \<open>Example documents\<close>

text \<open>Tokens with an empty position, and a list entry with numeric bounds.\<close>

definition mkChr :: "string \<Rightarrow> int \<Rightarrow> int \<Rightarrow> int \<Rightarrow> chr" where
  "mkChr txt s e v =
     \<lparr>tk_text = txt, tk_start = s, tk_end = e, tk_voice = v, tk_position = [], tk_kids = ()\<rparr>"

definition timedView :: "int \<Rightarrow> int \<Rightarrow> tokenView" where
  "timedView s e = \<lparr>v_text = ''x'', v_voice = 0, v_start = Some s, v_end = Some e\<rparr>"

definition mkWord :: "string \<Rightarrow> int \<Rightarrow> int \<Rightarrow> int \<Rightarrow> chr list option \<Rightarrow> word" where
  "mkWord txt s e v chars =
     \<lparr>tk_text = txt, tk_start = s, tk_end = e, tk_voice = v, tk_position = [], tk_kids = chars\<rparr>"

definition mkLine :: "string \<Rightarrow> int \<Rightarrow> int \<Rightarrow> int \<Rightarrow> word list option \<Rightarrow> line" where
  "mkLine txt s e v words =
     \<lparr>tk_text = txt, tk_start = s, tk_end = e, tk_voice = v, tk_position = [], tk_kids = words\<rparr>"

definition mkBlock :: "string \<Rightarrow> int \<Rightarrow> int \<Rightarrow> int \<Rightarrow> line list \<Rightarrow> block" where
  "mkBlock txt s e v lines =
     \<lparr>tk_text = txt, tk_start = s, tk_end = e, tk_voice = v, tk_position = [], tk_kids = lines\<rparr>"

text \<open>
  A block recorded as 1000--5000 with two lines, the first recorded as 1000--2000, the
  second untimed; of the first line's two words only the first is timed.
\<close>

definition nestedMixDoc :: document where
  "nestedMixDoc =
     [mkBlock ''la la'' 1000 5000 1
        [mkLine ''la la'' 1000 2000 1
           (Some [mkWord ''la'' 1000 1500 1 None, mkWord ''la'' 0 0 0 None]),
         mkLine ''na'' 0 0 0 None]]"

text \<open>
  A line that was never recorded (0--0) although one of its two words is timed.
\<close>

definition zeroLineDoc :: document where
  "zeroLineDoc =
     [mkBlock ''la la'' 0 0 0
        [mkLine ''la la'' 0 0 0
           (Some [mkWord ''la'' 500 800 1 None, mkWord ''la'' 0 0 0 None])]]"

text \<open>
  A block and its line recorded as 2000--3000 before any word or character was timed.
\<close>

definition lineOnlyDoc :: document where
  "lineOnlyDoc =
     [mkBlock ''la na'' 2000 3000 1
        [mkLine ''la na'' 2000 3000 1
           (Some [mkWord ''la'' 0 0 0 (Some [mkChr ''l'' 0 0 0, mkChr ''a'' 0 0 0]),
                  mkWord ''na'' 0 0 0 None])]]"

text \<open>The first word recorded from 1.0 s to 3.5 s, in words mode.\<close>

definition wordEvents :: "recordEvent list" where
  "wordEvents =
     [\<lparr>ev_mode = Words, ev_index = 0, ev_voice = 1, ev_time = 1, ev_type = RecStart\<rparr>,
      \<lparr>ev_mode = Words, ev_index = 0, ev_voice = 1, ev_time = 7 / 2, ev_type = RecEnd\<rparr>]"

text \<open>
  A document with nothing timed, and the key-down event that records the start of its
  first word at 1.0 s.
\<close>

definition untimedDoc :: document where
  "untimedDoc =
     [mkBlock ''la na'' 0 0 0
        [mkLine ''la na'' 0 0 0
           (Some [mkWord ''la'' 0 0 0 None, mkWord ''na'' 0 0 0 None])]]"

definition startOnlyEvent :: recordEvent where
  "startOnlyEvent =
     \<lparr>ev_mode = Words, ev_index = 0, ev_voice = 1, ev_time = 1, ev_type = RecStart\<rparr>"

text \<open>Both words timed, the characters of the first word never timed.\<close>

definition untimedCharsDoc :: document where
  "untimedCharsDoc =
     [mkBlock ''la na'' 1000 2000 1
        [mkLine ''la na'' 1000 2000 1
           (Some [mkWord ''la'' 1000 1500 1 (Some [mkChr ''l'' 0 0 0, mkChr ''a'' 0 0 0]),
                  mkWord ''na'' 1500 2000 1 None])]]"

text \<open>
  The editor in chars mode on \<open>lineOnlyDoc\<close>, whose line is recorded and whose words
  are not.
\<close>

definition charsModeSession :: session where
  "charsModeSession =
     \<lparr>karaokeData = lineOnlyDoc, recordingMode = Chars, activeTokenIndex = 0, currentVoice = 1\<rparr>"

text \<open>
  A session in lines mode in the middle of recording: the first two lines of the block
  are recorded, the last two are not yet, and the cursor is on the third.
\<close>

definition partlyRecordedSession :: session where
  "partlyRecordedSession =
     \<lparr>karaokeData =
        [mkBlock ''la la na na'' 100 400 1
           [mkLine ''la'' 100 200 1 None, mkLine ''la'' 300 400 1 None,
            mkLine ''na'' 0 0 0 None, mkLine ''na'' 0 0 0 None]],
      recordingMode = Lines, activeTokenIndex = 2, currentVoice = 1\<rparr>"

text \<open>
  A block 0--61 of fourteen lines of which only the first is timed: the boundary before
  line 7 is the exact half 30.5.
\<close>

definition fourteenLinesDoc :: document where
  "fourteenLinesDoc =
     [mkBlock ''b'' 0 61 0 (mkLine ''x'' 0 5 0 None # replicate 13 (mkLine ''x'' 0 0 0 None))]"

text \<open>One line with the two words of three and five characters, nothing timed.\<close>

definition twoWordsDoc :: document where
  "twoWordsDoc =
     [mkBlock ''abc defgh'' 0 0 0
        [mkLine ''abc defgh'' 0 0 0
           (Some [mkWord ''abc'' 0 0 0 None, mkWord ''defgh'' 0 0 0 None])]]"

section \<open>Properties of the rounding to a double\<close>

text \<open>
  The exponent brackets its argument, the rounding is monotone, and a rounded number is
  a double: rounding it again changes nothing.
\<close>

lemma floorlog2_nonneg: "0 \<le> floorlog2 n"
proof (induction n rule: floorlog2.induct)
  case (1 n)
  then show ?case by (subst floorlog2.simps) simp
qed

lemma floorlog2_bounds:
  "1 \<le> n \<Longrightarrow> 2 ^ nat (floorlog2 n) \<le> n \<and> n < 2 * 2 ^ nat (floorlog2 n)"
proof (induction n rule: floorlog2.induct)
  case (1 n)
  show ?case
  proof (cases "n \<le> 1")
    case True
    then have "n = 1" using "1.prems" by simp
    then show ?thesis by (subst (1 2) floorlog2.simps) simp
  next
    case False
    define k where "k = nat (floorlog2 (n div 2))"
    have h: "1 \<le> n div 2" using False by simp
    have ih: "2 ^ k \<le> n div 2 \<and> n div 2 < 2 * 2 ^ k"
      using "1.IH" [OF False h] by (simp add: k_def)
    have f: "floorlog2 n = 1 + floorlog2 (n div 2)"
      using False by (subst floorlog2.simps) simp
    have n: "nat (floorlog2 n) = Suc k"
      using floorlog2_nonneg [of "n div 2"] by (simp add: f k_def nat_add_distrib)
    have "2 * (n div 2) \<le> n" "n < 2 * (n div 2) + 2" by simp_all
    then show ?thesis using ih by (simp add: n)
  qed
qed

lemma exponentOf_bounds:
  assumes "0 < x"
  shows "2 powi exponentOf x \<le> x" and "x < 2 powi (exponentOf x + 1)"
proof -
  have "2 powi exponentOf x \<le> x \<and> x < 2 powi (exponentOf x + 1)"
  proof (cases "1 \<le> x")
    case True
    define n where "n = \<lfloor>x\<rfloor>"
    define k where "k = nat (floorlog2 n)"
    have n1: "1 \<le> n" using True by (simp add: n_def)
    have e: "exponentOf x = int k"
      using True floorlog2_nonneg [of n] by (simp add: exponentOf_def n_def k_def)
    have b: "2 ^ k \<le> n" "n < 2 * 2 ^ k"
      using floorlog2_bounds [OF n1] by (simp_all add: k_def)
    have "(of_int (2 ^ k) :: rat) \<le> of_int n" using b(1) by (simp only: of_int_le_iff)
    also have "\<dots> \<le> x" by (simp add: n_def)
    finally have lo: "(2 :: rat) ^ k \<le> x" by simp
    have "n + 1 \<le> 2 * 2 ^ k" using b(2) by simp
    then have "(of_int (n + 1) :: rat) \<le> of_int (2 * 2 ^ k)" by (simp only: of_int_le_iff)
    moreover have "x < of_int (n + 1)" unfolding n_def by linarith
    ultimately have hi: "x < 2 * 2 ^ k" by simp
    show ?thesis using lo hi by (simp add: e power_int_add)
  next
    case False
    define y where "y = 1 / x"
    define m where "m = \<lceil>y\<rceil>"
    define j where "j = nat (floorlog2 (m - 1))"
    have y1: "1 < y" using False assms by (simp add: y_def)
    have m2: "1 \<le> m - 1" using y1 unfolding m_def by linarith
    have e: "exponentOf x = - (1 + int j)"
      using False floorlog2_nonneg [of "m - 1"] by (simp add: exponentOf_def m_def y_def j_def)
    have b: "2 ^ j \<le> m - 1" "m - 1 < 2 * 2 ^ j"
      using floorlog2_bounds [OF m2] by (simp_all add: j_def)
    have "m \<le> 2 * 2 ^ j" using b(2) by simp
    then have "(of_int m :: rat) \<le> of_int (2 * 2 ^ j)" by (simp only: of_int_le_iff)
    moreover have "y \<le> of_int m" by (simp add: m_def)
    ultimately have yhi: "y \<le> 2 * 2 ^ j" by simp
    have "(of_int (2 ^ j) :: rat) \<le> of_int (m - 1)" using b(1) by (simp only: of_int_le_iff)
    moreover have "of_int (m - 1) < y" unfolding m_def by linarith
    ultimately have ylo: "2 ^ j < y" by simp
    have x: "x = 1 / y" by (simp add: y_def)
    have p: "(0 :: rat) < 2 ^ j" by simp
    have lo: "1 / (2 * 2 ^ j) \<le> x"
      unfolding x using yhi y1 by (intro divide_left_mono) (simp_all)
    have hi: "x < 1 / 2 ^ j"
      unfolding x using ylo p y1 by (intro divide_strict_left_mono) simp_all
    have pj: "(2 :: rat) powi int (Suc j) = 2 * 2 ^ j"
      by (simp only: power_int_of_nat power_Suc)
    have "exponentOf x = - int (Suc j)" by (simp add: e)
    then have "(2 :: rat) powi exponentOf x = inverse (2 powi int (Suc j))"
      by (simp only: power_int_minus)
    then have e1: "(2 :: rat) powi exponentOf x = 1 / (2 * 2 ^ j)"
      by (simp only: pj inverse_eq_divide)
    have "exponentOf x + 1 = - int j" by (simp add: e)
    then have "(2 :: rat) powi (exponentOf x + 1) = inverse (2 powi int j)"
      by (simp only: power_int_minus)
    then have e2: "(2 :: rat) powi (exponentOf x + 1) = 1 / 2 ^ j"
      by (simp only: power_int_of_nat inverse_eq_divide)
    show ?thesis using lo hi by (simp only: e1 e2)
  qed
  then show "2 powi exponentOf x \<le> x" and "x < 2 powi (exponentOf x + 1)" by simp_all
qed

lemma powi_less_imp: "(2 :: rat) powi a \<le> x \<Longrightarrow> x < 2 powi b \<Longrightarrow> a < b"
proof (rule ccontr)
  assume h: "2 powi a \<le> x" "x < 2 powi b" and "\<not> a < b"
  then have "b \<le> a" by simp
  then have "(2 :: rat) powi b \<le> 2 powi a" by (rule power_int_increasing) simp
  then show False using h by simp
qed

lemma exponentOf_unique:
  assumes "0 < x" "2 powi k \<le> x" "x < 2 powi (k + 1)"
  shows "exponentOf x = k"
proof -
  have "exponentOf x < k + 1"
    using powi_less_imp [OF exponentOf_bounds(1) [OF assms(1)] assms(3)] .
  moreover have "k < exponentOf x + 1"
    using powi_less_imp [OF assms(2) exponentOf_bounds(2) [OF assms(1)]] .
  ultimately show ?thesis by simp
qed

lemma exponentOf_mono:
  assumes "0 < x" "x \<le> y"
  shows "exponentOf x \<le> exponentOf y"
proof -
  have y: "0 < y" using assms by simp
  have "2 powi exponentOf x \<le> y" using exponentOf_bounds(1) [OF assms(1)] assms(2) by simp
  then have "exponentOf x < exponentOf y + 1"
    using exponentOf_bounds(2) [OF y] by (rule powi_less_imp)
  then show ?thesis by simp
qed

lemma roundHalfEven_of_int [simp]: "roundHalfEven (of_int n) = n"
  by (simp add: roundHalfEven_def)

lemma roundHalfEven_bounds: "\<lfloor>x\<rfloor> \<le> roundHalfEven x" "roundHalfEven x \<le> \<lfloor>x\<rfloor> + 1"
  by (simp_all add: roundHalfEven_def Let_def)

lemma roundHalfEven_mono:
  assumes "x \<le> y"
  shows "roundHalfEven x \<le> roundHalfEven y"
proof (cases "\<lfloor>x\<rfloor> = \<lfloor>y\<rfloor>")
  case True
  then show ?thesis using assms by (simp add: roundHalfEven_def Let_def)
next
  case False
  moreover have "\<lfloor>x\<rfloor> \<le> \<lfloor>y\<rfloor>" using assms by (rule floor_mono)
  ultimately have "\<lfloor>x\<rfloor> + 1 \<le> \<lfloor>y\<rfloor>" by simp
  then show ?thesis
    using roundHalfEven_bounds(2) [of x] roundHalfEven_bounds(1) [of y] by simp
qed

lemma ulpOf_pos: "0 < ulpOf x"
  by (simp add: ulpOf_def zero_less_power_int)

lemma roundPositive_ulp: "roundPositive x = of_int (roundHalfEven (x / ulpOf x)) * ulpOf x"
  by (simp add: roundPositive_def)

lemma ulp_scale:
  "(2 :: rat) powi (e - 52) * 2 ^ 52 = 2 powi e"
  "(2 :: rat) powi (e - 52) * 2 ^ 53 = 2 powi (e + 1)"
proof -
  have a: "(2 :: rat) powi (e - 52 + 52) = 2 powi (e - 52) * 2 powi 52"
    by (rule power_int_add) simp
  have b: "e - 52 + 52 = e" by simp
  have c: "(2 :: rat) powi 52 = 2 ^ 52" by (rule power_int_numeral)
  show "(2 :: rat) powi (e - 52) * 2 ^ 52 = 2 powi e"
    using a unfolding b c by (rule sym)
  have a: "(2 :: rat) powi (e - 52 + 53) = 2 powi (e - 52) * 2 powi 53"
    by (rule power_int_add) simp
  have b: "e - 52 + 53 = e + 1" by simp
  have c: "(2 :: rat) powi 53 = 2 ^ 53" by (rule power_int_numeral)
  show "(2 :: rat) powi (e - 52) * 2 ^ 53 = 2 powi (e + 1)"
    using a unfolding b c by (rule sym)
qed

lemma roundPositive_nonneg:
  assumes "0 < x"
  shows "0 \<le> roundPositive x"
proof -
  have "0 \<le> x / ulpOf x" using assms ulpOf_pos [of x] by simp
  then have "roundHalfEven 0 \<le> roundHalfEven (x / ulpOf x)" by (rule roundHalfEven_mono)
  then have "0 \<le> roundHalfEven (x / ulpOf x)" using roundHalfEven_of_int [of 0] by simp
  then show ?thesis using ulpOf_pos [of x] by (simp add: roundPositive_ulp)
qed

lemma roundPositive_upper:
  assumes "0 < x" "x < 2 powi (e + 1)" "ulpOf x = 2 powi (e - 52)"
  shows "roundPositive x \<le> 2 powi (e + 1)"
proof -
  have u: "0 < ulpOf x" by (rule ulpOf_pos)
  have "x < ulpOf x * 2 ^ 53" using assms(2) by (simp only: assms(3) ulp_scale)
  then have "x / ulpOf x \<le> of_int (2 ^ 53)" using u by (simp add: field_simps)
  then have "roundHalfEven (x / ulpOf x) \<le> roundHalfEven (of_int (2 ^ 53))"
    by (rule roundHalfEven_mono)
  then have "roundHalfEven (x / ulpOf x) \<le> 2 ^ 53" by (simp only: roundHalfEven_of_int)
  then have "(of_int (roundHalfEven (x / ulpOf x)) :: rat) \<le> of_int (2 ^ 53)"
    by (simp only: of_int_le_iff)
  then have "of_int (roundHalfEven (x / ulpOf x)) * ulpOf x \<le> of_int (2 ^ 53) * ulpOf x"
    using u by (simp only: mult_le_cancel_right_pos)
  also have "\<dots> = 2 powi (e + 1)" using ulp_scale(2) [of e] by (simp add: assms(3) mult.commute)
  finally show ?thesis by (simp only: roundPositive_ulp)
qed

lemma roundPositive_lower:
  assumes "0 < x" "2 powi e \<le> x" "ulpOf x = 2 powi (e - 52)"
  shows "2 powi e \<le> roundPositive x"
proof -
  have u: "0 < ulpOf x" by (rule ulpOf_pos)
  have "ulpOf x * 2 ^ 52 \<le> x" using assms(2) by (simp only: assms(3) ulp_scale)
  then have "of_int (2 ^ 52) \<le> x / ulpOf x" using u by (simp add: field_simps)
  then have "roundHalfEven (of_int (2 ^ 52)) \<le> roundHalfEven (x / ulpOf x)"
    by (rule roundHalfEven_mono)
  then have "2 ^ 52 \<le> roundHalfEven (x / ulpOf x)" by (simp only: roundHalfEven_of_int)
  then have "(of_int (2 ^ 52) :: rat) \<le> of_int (roundHalfEven (x / ulpOf x))"
    by (simp only: of_int_le_iff)
  then have "of_int (2 ^ 52) * ulpOf x \<le> of_int (roundHalfEven (x / ulpOf x)) * ulpOf x"
    using u by (simp only: mult_le_cancel_right_pos)
  moreover have "of_int (2 ^ 52) * ulpOf x = 2 powi e"
    using ulp_scale(1) [of e] by (simp add: assms(3) mult.commute)
  ultimately show ?thesis by (simp only: roundPositive_ulp)
qed

lemma roundPositive_mono:
  assumes "0 < x" "x \<le> y"
  shows "roundPositive x \<le> roundPositive y"
proof -
  define ex where "ex = max (exponentOf x) (- 1022)"
  define ey where "ey = max (exponentOf y) (- 1022)"
  have y: "0 < y" using assms by simp
  have le: "ex \<le> ey" using exponentOf_mono [OF assms] by (simp add: ex_def ey_def)
  have ux: "ulpOf x = 2 powi (ex - 52)" and uy: "ulpOf y = 2 powi (ey - 52)"
    by (simp_all add: ulpOf_def ex_def ey_def)
  show ?thesis
  proof (cases "ex = ey")
    case True
    then have u: "ulpOf x = ulpOf y" by (simp add: ux uy)
    have "x / ulpOf y \<le> y / ulpOf y" using assms(2) ulpOf_pos [of y] by (simp add: divide_right_mono)
    then have "roundHalfEven (x / ulpOf y) \<le> roundHalfEven (y / ulpOf y)"
      by (rule roundHalfEven_mono)
    then have "(of_int (roundHalfEven (x / ulpOf y)) :: rat) \<le> of_int (roundHalfEven (y / ulpOf y))"
      by (simp only: of_int_le_iff)
    then show ?thesis
      using ulpOf_pos [of y] by (simp only: roundPositive_ulp u mult_le_cancel_right_pos)
  next
    case False
    then have lt: "ex + 1 \<le> ey" using le by simp
    then have eyn: "ey = exponentOf y" by (simp add: ey_def ex_def)
    have "exponentOf x \<le> ex" by (simp add: ex_def)
    then have "(2 :: rat) powi (exponentOf x + 1) \<le> 2 powi (ex + 1)"
      by (intro power_int_increasing) simp_all
    then have "x < 2 powi (ex + 1)" using exponentOf_bounds(2) [OF assms(1)] by simp
    then have "roundPositive x \<le> 2 powi (ex + 1)"
      using assms(1) ux by (intro roundPositive_upper) simp_all
    also have "\<dots> \<le> 2 powi ey" using lt by (intro power_int_increasing) simp_all
    also have "\<dots> \<le> roundPositive y"
      using exponentOf_bounds(1) [OF y] uy y by (intro roundPositive_lower) (simp_all add: eyn)
    finally show ?thesis .
  qed
qed

lemma toDouble_nonneg: "0 \<le> x \<Longrightarrow> 0 \<le> toDouble x"
  by (simp add: toDouble_def roundPositive_nonneg)

lemma toDouble_nonpos: "x \<le> 0 \<Longrightarrow> toDouble x \<le> 0"
  by (simp add: toDouble_def roundPositive_nonneg)

lemma toDouble_mono:
  assumes "x \<le> y"
  shows "toDouble x \<le> toDouble y"
proof -
  consider "0 < x" | "x \<le> 0" "0 \<le> y" | "y < 0" by linarith
  then show ?thesis
  proof cases
    case 1
    then show ?thesis using assms roundPositive_mono [of x y] by (simp add: toDouble_def)
  next
    case 2
    then show ?thesis using toDouble_nonpos [of x] toDouble_nonneg [of y] by simp
  next
    case 3
    then have "roundPositive (- y) \<le> roundPositive (- x)"
      using assms by (intro roundPositive_mono) simp_all
    then show ?thesis using 3 assms by (simp add: toDouble_def)
  qed
qed

lemma roundPositive_grid:
  assumes "0 < u" "ulpOf (of_int m * u) = u"
  shows "roundPositive (of_int m * u) = of_int m * u"
proof -
  have "of_int m * u / u = (of_int m :: rat)" using assms(1) by simp
  then show ?thesis by (simp only: roundPositive_ulp assms(2) roundHalfEven_of_int)
qed

lemma roundPositive_idem:
  assumes "0 < x"
  shows "toDouble (roundPositive x) = roundPositive x"
proof -
  define e where "e = max (exponentOf x) (- 1022)"
  define u :: rat where "u = 2 powi (e - 52)"
  define m where "m = roundHalfEven (x / u)"
  have ux: "ulpOf x = u" by (simp add: ulpOf_def u_def e_def)
  have u: "0 < u" using ulpOf_pos [of x] by (simp only: ux)
  have r: "roundPositive x = of_int m * u" by (simp only: roundPositive_ulp ux m_def)
  have e: "- 1022 \<le> e" by (simp add: e_def)
  have "exponentOf x \<le> e" by (simp add: e_def)
  then have "(2 :: rat) powi (exponentOf x + 1) \<le> 2 powi (e + 1)"
    by (intro power_int_increasing) simp_all
  then have xhi: "x < 2 powi (e + 1)" using exponentOf_bounds(2) [OF assms] by simp
  have rhi: "of_int m * u \<le> 2 powi (e + 1)"
    using roundPositive_upper [OF assms xhi] ux by (simp only: r u_def)
  have m0: "0 \<le> m" using roundPositive_nonneg [OF assms] u by (simp add: r zero_le_mult_iff)
  show ?thesis
  proof (cases "m = 0")
    case True
    then show ?thesis by (simp add: r toDouble_def)
  next
    case False
    then have mp: "0 < m" using m0 by simp
    then have rp: "0 < of_int m * u" using u by simp
    have fixed: "roundPositive (of_int m * u) = of_int m * u"
    proof (cases "of_int m * u = 2 powi (e + 1)")
      case True
      have ex: "exponentOf (2 powi (e + 1) :: rat) = e + 1"
      proof (rule exponentOf_unique)
        show "(0 :: rat) < 2 powi (e + 1)" by (simp add: zero_less_power_int)
        show "(2 :: rat) powi (e + 1) \<le> 2 powi (e + 1)" by simp
        show "(2 :: rat) powi (e + 1) < 2 powi (e + 1 + 1)"
          by (rule power_int_strict_increasing) simp_all
      qed
      have ul: "ulpOf (2 powi (e + 1) :: rat) = 2 powi (e + 1 - 52)"
        using e by (simp add: ulpOf_def ex)
      have "(2 :: rat) powi (e + 1 - 52) * 2 ^ 52 = 2 powi (e + 1)" by (rule ulp_scale(1))
      then have g: "(2 :: rat) powi (e + 1) = of_int (2 ^ 52) * 2 powi (e + 1 - 52)"
        by (simp add: mult.commute)
      have "roundPositive (of_int (2 ^ 52) * 2 powi (e + 1 - 52))
              = of_int (2 ^ 52) * 2 powi (e + 1 - 52)"
      proof (rule roundPositive_grid)
        show "(0 :: rat) < 2 powi (e + 1 - 52)" by (simp add: zero_less_power_int)
        show "ulpOf (of_int (2 ^ 52) * 2 powi (e + 1 - 52) :: rat) = 2 powi (e + 1 - 52)"
          using ul by (simp only: g [symmetric])
      qed
      then have "roundPositive (2 powi (e + 1)) = (2 powi (e + 1) :: rat)"
        by (simp only: g [symmetric])
      then show ?thesis by (simp only: True)
    next
      case False
      then have lt: "of_int m * u < 2 powi (e + 1)" using rhi by simp
      have "max (exponentOf (of_int m * u)) (- 1022) = e"
      proof (cases "2 powi e \<le> of_int m * u")
        case True
        have "exponentOf (of_int m * u) = e"
          using rp True lt by (rule exponentOf_unique)
        then show ?thesis using e by simp
      next
        case False
        then have small: "of_int m * u < 2 powi e" by simp
        have "e = - 1022"
        proof (rule ccontr)
          assume "e \<noteq> - 1022"
          then have en: "e = exponentOf x" using e by (simp add: e_def)
          have "2 powi e \<le> roundPositive x"
            using assms exponentOf_bounds(1) [OF assms] ux
            by (intro roundPositive_lower) (simp_all add: en u_def)
          then show False using small by (simp add: r)
        qed
        moreover have "exponentOf (of_int m * u) < e"
          using exponentOf_bounds(1) [OF rp] small by (rule powi_less_imp)
        ultimately show ?thesis by simp
      qed
      then have "ulpOf (of_int m * u) = u" by (simp add: ulpOf_def u_def)
      with u show ?thesis by (rule roundPositive_grid)
    qed
    then show ?thesis using rp by (simp add: r toDouble_def)
  qed
qed

lemma toDouble_idem [simp]: "toDouble (toDouble x) = toDouble x"
proof -
  consider "x = 0" | "0 < x" | "x < 0" by linarith
  then show ?thesis
  proof cases
    case 1
    then show ?thesis by (simp add: toDouble_def)
  next
    case 2
    then show ?thesis using roundPositive_idem [of x] by (simp add: toDouble_def)
  next
    case 3
    define r where "r = roundPositive (- x)"
    have x: "toDouble x = - r" using 3 by (simp add: toDouble_def r_def)
    have r0: "0 \<le> r" using 3 by (simp add: r_def roundPositive_nonneg)
    have rr: "toDouble r = r" using roundPositive_idem [of "- x"] 3 by (simp add: r_def)
    have "toDouble (- r) = - r"
    proof (cases "r = 0")
      case True
      then show ?thesis by (simp add: toDouble_def)
    next
      case False
      then have p: "0 < r" using r0 by simp
      then have "roundPositive r = r" using rr by (simp add: toDouble_def)
      then show ?thesis using p by (simp add: toDouble_def)
    qed
    then show ?thesis by (simp only: x)
  qed
qed

lemma toDouble_0 [simp]: "toDouble 0 = 0"
  by (simp add: toDouble_def)

lemma toDouble_1: "toDouble 1 = 1" by code_simp
lemma toDouble_100: "toDouble 100 = 100" by code_simp
lemma toDouble_1000: "toDouble 1000 = 1000" by code_simp

section \<open>Properties of playback progress\<close>

text \<open>
  The fraction of a token that has passed at the millisecond clock \<open>ms\<close>, before the
  clamp: it is monotone in the clock and stays within 0 and 100.
\<close>

lemma fraction_bounds:
  fixes s e :: int
  assumes "of_int s \<le> ms" "ms < of_int e"
  shows "0 \<le> js_mul (js_div (js_sub ms (of_int s)) (js_sub (of_int e) (of_int s))) 100"
    and "js_mul (js_div (js_sub ms (of_int s)) (js_sub (of_int e) (of_int s))) 100 \<le> 100"
proof -
  define a where "a = js_sub ms (of_int s)"
  define b where "b = js_sub (of_int e) (of_int s)"
  define q where "q = js_div a b"
  have "(of_int s :: rat) < of_int e" using assms by linarith
  then have "s < e" by (simp only: of_int_less_iff)
  then have "1 \<le> e - s" by simp
  then have "(of_int 1 :: rat) \<le> of_int (e - s)" by (simp only: of_int_le_iff)
  then have "(1 :: rat) \<le> of_int e - of_int s" by simp
  then have "toDouble 1 \<le> toDouble (of_int e - of_int s)" by (rule toDouble_mono)
  then have b1: "1 \<le> b" by (simp add: b_def js_sub_def toDouble_1)
  have a0: "0 \<le> a" using assms(1) by (simp add: a_def js_sub_def toDouble_nonneg)
  have "ms - of_int s \<le> of_int e - of_int s" using assms(2) by simp
  then have ab: "a \<le> b" unfolding a_def b_def js_sub_def by (rule toDouble_mono)
  have "0 \<le> a / b" using a0 b1 by simp
  then have q0: "0 \<le> q" by (simp add: q_def js_div_def toDouble_nonneg)
  have "a / b \<le> 1" using ab b1 by simp
  then have "toDouble (a / b) \<le> toDouble 1" by (rule toDouble_mono)
  then have q1: "q \<le> 1" by (simp add: q_def js_div_def toDouble_1)
  have "0 \<le> q * 100" using q0 by simp
  then have p0: "0 \<le> js_mul q 100" by (simp add: js_mul_def toDouble_nonneg)
  have "q * 100 \<le> 100" using q1 by simp
  then have "toDouble (q * 100) \<le> toDouble 100" by (rule toDouble_mono)
  then have p1: "js_mul q 100 \<le> 100" by (simp add: js_mul_def toDouble_100)
  show "0 \<le> js_mul (js_div (js_sub ms (of_int s)) (js_sub (of_int e) (of_int s))) 100"
    using p0 by (simp only: q_def a_def b_def)
  show "js_mul (js_div (js_sub ms (of_int s)) (js_sub (of_int e) (of_int s))) 100 \<le> 100"
    using p1 by (simp only: q_def a_def b_def)
qed

lemma fraction_mono:
  fixes s e :: int
  assumes "of_int s \<le> ms" "ms \<le> ms'" "ms' < of_int e"
  shows "js_mul (js_div (js_sub ms (of_int s)) (js_sub (of_int e) (of_int s))) 100
       \<le> js_mul (js_div (js_sub ms' (of_int s)) (js_sub (of_int e) (of_int s))) 100"
proof -
  define b where "b = js_sub (of_int e) (of_int s)"
  have "(of_int s :: rat) < of_int e" using assms by linarith
  then have "s < e" by (simp only: of_int_less_iff)
  then have "1 \<le> e - s" by simp
  then have "(of_int 1 :: rat) \<le> of_int (e - s)" by (simp only: of_int_le_iff)
  then have "(1 :: rat) \<le> of_int e - of_int s" by simp
  then have "toDouble 1 \<le> toDouble (of_int e - of_int s)" by (rule toDouble_mono)
  then have b1: "1 \<le> b" by (simp add: b_def js_sub_def toDouble_1)
  have "ms - of_int s \<le> ms' - of_int s" using assms(2) by simp
  then have a: "js_sub ms (of_int s) \<le> js_sub ms' (of_int s)"
    unfolding js_sub_def by (rule toDouble_mono)
  have "js_sub ms (of_int s) / b \<le> js_sub ms' (of_int s) / b"
    using a b1 by (simp add: divide_right_mono)
  then have q: "js_div (js_sub ms (of_int s)) b \<le> js_div (js_sub ms' (of_int s)) b"
    unfolding js_div_def by (rule toDouble_mono)
  have "js_div (js_sub ms (of_int s)) b * 100 \<le> js_div (js_sub ms' (of_int s)) b * 100"
    using q by simp
  then have "js_mul (js_div (js_sub ms (of_int s)) b) 100
           \<le> js_mul (js_div (js_sub ms' (of_int s)) b) 100"
    unfolding js_mul_def by (rule toDouble_mono)
  then show ?thesis by (simp only: b_def)
qed

lemma progress_inside:
  assumes "of_int (tk_start tok) \<le> js_mul t 1000" "js_mul t 1000 < of_int (tk_end tok)"
  shows "getTokenProgress t tok
           = js_mul (js_div (js_sub (js_mul t 1000) (of_int (tk_start tok)))
                            (js_sub (of_int (tk_end tok)) (of_int (tk_start tok)))) 100"
proof -
  have "(of_int (tk_start tok) :: rat) < of_int (tk_end tok)" using assms by linarith
  then have ne: "tk_start tok \<noteq> tk_end tok" by auto
  show ?thesis
    using assms ne fraction_bounds [OF assms]
    by (simp add: getTokenProgress_def Let_def)
qed

lemma progress_range: "0 \<le> getTokenProgress t tok \<and> getTokenProgress t tok \<le> 100"
  by (simp add: getTokenProgress_def Let_def)

lemma progress_mono:
  assumes "t \<le> t'"
  shows "getTokenProgress t tok \<le> getTokenProgress t' tok"
proof -
  define ms ms' where "ms = js_mul t 1000" and "ms' = js_mul t' 1000"
  have "t * 1000 \<le> t' * 1000" using assms by simp
  then have le: "ms \<le> ms'" unfolding ms_def ms'_def js_mul_def by (rule toDouble_mono)
  consider "ms < of_int (tk_start tok)"
    | "of_int (tk_start tok) \<le> ms" "of_int (tk_end tok) \<le> ms'"
    | "of_int (tk_start tok) \<le> ms" "ms' < of_int (tk_end tok)"
    by linarith
  then show ?thesis
  proof cases
    case 1
    then have "getTokenProgress t tok = 0"
      by (simp add: getTokenProgress_def Let_def ms_def)
    then show ?thesis using progress_range [of t' tok] by simp
  next
    case 2
    then have "of_int (tk_start tok) \<le> ms'" using le by simp
    then have "getTokenProgress t' tok = 100"
      using 2 by (simp add: getTokenProgress_def Let_def ms'_def)
    then show ?thesis using progress_range [of t tok] by simp
  next
    case 3
    have a: "of_int (tk_start tok) \<le> js_mul t 1000" "js_mul t 1000 < of_int (tk_end tok)"
      using 3 le by (simp_all add: ms_def ms'_def)
    have b: "of_int (tk_start tok) \<le> js_mul t' 1000" "js_mul t' 1000 < of_int (tk_end tok)"
      using 3 le by (simp_all add: ms_def ms'_def)
    show ?thesis
      unfolding progress_inside [OF a] progress_inside [OF b]
      using a(1) le b(2) unfolding ms_def ms'_def by (rule fraction_mono)
  qed
qed

text \<open>
  The millisecond clock is the double product \<^verbatim>\<open>currentTime * 1000\<close>: at the clock value
  nearest to 1.001 s it is just below 1001, so a token ending at 1001 ms is not yet
  complete.
\<close>

lemma progress_clock_product_example:
  "js_mul (toDouble (1001 / 1000)) 1000 < 1001
   \<and> getTokenProgress (toDouble (1001 / 1000)) (mkChr ''a'' 0 1001 0) < 100"
  by code_simp

text \<open>
  Claim C7 as stated fails in two ways. On a token whose start lies after its end the
  test against the start comes first: the token 1000--0 has progress 0, not 100, at
  500 ms, a time at or after its end. And the progress does not increase strictly inside
  a token: the clock values 7/8 s and the next double after it give the different
  millisecond clocks 875 and \<open>875 + 1 / 2 ^ 43\<close>, both inside the token 0--10000, and the
  same progress 8.75.
\<close>

theorem progress_counterexample:
  "js_mul (1 / 2) 1000 = 500
   \<and> of_int (tk_end (mkChr ''a'' 1000 0 0)) \<le> js_mul (1 / 2) 1000
   \<and> getTokenProgress (1 / 2) (mkChr ''a'' 1000 0 0) = 0
   \<and> toDouble (7 / 8) = 7 / 8
   \<and> toDouble (7 / 8 + 1 / 2 ^ 53) = 7 / 8 + 1 / 2 ^ 53
   \<and> js_mul (7 / 8) 1000 = 875
   \<and> js_mul (7 / 8 + 1 / 2 ^ 53) 1000 = 875 + 1 / 2 ^ 43
   \<and> getTokenProgress (7 / 8) (mkChr ''a'' 0 10000 0) = 35 / 4
   \<and> getTokenProgress (7 / 8 + 1 / 2 ^ 53) (mkChr ''a'' 0 10000 0) = 35 / 4"
  by code_simp

text \<open>
  Claim C7, amended: with \<open>t\<close> the millisecond clock the function computes, the double
  product of the clock in seconds and 1000, the progress of any token is 0 when
  \<open>t < start\<close>; 100 when \<open>t \<ge> start\<close> and \<open>t \<ge> end\<close>; and
  \<open>(t - start) / (end - start) * 100\<close> computed in doubles, which lies within 0 and 100,
  when \<open>start \<le> t < end\<close>. So a token with \<open>start = end\<close> has progress 100 from its
  start on and 0 before; a token with \<open>start < end\<close> has progress 0 at its start and
  100 at its end; and the progress never decreases as the clock advances.
\<close>

theorem getTokenProgress_spec:
  fixes tok :: "'k token" and t t' :: rat
  shows "(js_mul t 1000 < of_int (tk_start tok) \<longrightarrow> getTokenProgress t tok = 0)
     \<and> (of_int (tk_start tok) \<le> js_mul t 1000 \<and> of_int (tk_end tok) \<le> js_mul t 1000 \<longrightarrow>
           getTokenProgress t tok = 100)
     \<and> (of_int (tk_start tok) \<le> js_mul t 1000 \<and> js_mul t 1000 < of_int (tk_end tok) \<longrightarrow>
           getTokenProgress t tok
             = js_mul (js_div (js_sub (js_mul t 1000) (of_int (tk_start tok)))
                              (js_sub (of_int (tk_end tok)) (of_int (tk_start tok)))) 100
           \<and> 0 \<le> getTokenProgress t tok \<and> getTokenProgress t tok \<le> 100)
     \<and> (tk_start tok < tk_end tok \<and> js_mul t 1000 = of_int (tk_start tok) \<longrightarrow>
           getTokenProgress t tok = 0)
     \<and> (tk_start tok < tk_end tok \<and> js_mul t 1000 = of_int (tk_end tok) \<longrightarrow>
           getTokenProgress t tok = 100)
     \<and> (t \<le> t' \<longrightarrow> getTokenProgress t tok \<le> getTokenProgress t' tok)"
proof -
  define ms where "ms = js_mul t 1000"
  define s e where "s = (of_int (tk_start tok) :: rat)" and "e = (of_int (tk_end tok) :: rat)"
  have before: "getTokenProgress t tok = 0" if "ms < s"
    using that by (simp add: getTokenProgress_def Let_def ms_def s_def e_def)
  have after: "getTokenProgress t tok = 100" if "s \<le> ms" "e \<le> ms"
    using that by (simp add: getTokenProgress_def Let_def ms_def s_def e_def)
  have inside: "getTokenProgress t tok = js_mul (js_div (js_sub ms s) (js_sub e s)) 100"
    if "s \<le> ms" "ms < e"
    using progress_inside [of tok t] that by (simp add: ms_def s_def e_def)
  have atStart: "getTokenProgress t tok = 0" if "tk_start tok < tk_end tok" "ms = s"
  proof -
    have "s < e" using that(1) by (simp add: s_def e_def)
    then have "getTokenProgress t tok = js_mul (js_div (js_sub s s) (js_sub e s)) 100"
      using inside that(2) by simp
    then show ?thesis by (simp add: js_sub_def js_div_def js_mul_def)
  qed
  have atEnd: "getTokenProgress t tok = 100" if "tk_start tok < tk_end tok" "ms = e"
  proof -
    have "s < e" using that(1) by (simp add: s_def e_def)
    then show ?thesis using after that(2) by simp
  qed
  show ?thesis
    unfolding ms_def [symmetric] s_def [symmetric] e_def [symmetric]
    using before after inside atStart atEnd progress_range [of t tok] progress_mono [of t t' tok]
    by auto
qed

theorem getTokenProgress_spec_witness:
  "js_mul (3 / 2) 1000 = 1500
   \<and> getTokenProgress (3 / 2) (mkChr ''a'' 1000 3000 1) = 25
   \<and> getTokenProgress (3 / 2) (mkChr ''a'' 1000 3000 1)
       \<le> getTokenProgress 2 (mkChr ''a'' 1000 3000 1)
   \<and> getTokenProgress 1 (mkChr ''a'' 1000 3000 1) = 0
   \<and> getTokenProgress 3 (mkChr ''a'' 1000 3000 1) = 100"
proof -
  have ms: "js_mul (3 / 2) 1000 = 1500" "js_mul 1 1000 = 1000" "js_mul 3 1000 = 3000"
    by code_simp+
  have tok: "tk_start (mkChr ''a'' 1000 3000 1) = 1000" "tk_end (mkChr ''a'' 1000 3000 1) = 3000"
    by (simp_all add: mkChr_def)
  have v: "js_mul (js_div (js_sub 1500 1000) (js_sub 3000 1000)) 100 = 25"
    by code_simp
  note spec = getTokenProgress_spec [where tok = "mkChr ''a'' 1000 3000 1"]
  have a: "getTokenProgress (3 / 2) (mkChr ''a'' 1000 3000 1) = 25"
    using spec [of "3 / 2" 2] by (simp add: ms tok v)
  have b: "getTokenProgress (3 / 2) (mkChr ''a'' 1000 3000 1)
             \<le> getTokenProgress 2 (mkChr ''a'' 1000 3000 1)"
    using spec [of "3 / 2" 2] by simp
  have c: "getTokenProgress 1 (mkChr ''a'' 1000 3000 1) = 0"
    using spec [of 1 1] by (simp add: ms tok)
  have d: "getTokenProgress 3 (mkChr ''a'' 1000 3000 1) = 100"
    using spec [of 3 3] by (simp add: ms tok)
  show ?thesis using ms(1) a b c d by simp
qed

section \<open>Properties of the export cleanup\<close>

lemma length_interpolate [simp]: "length (interpolate s e v xs) = length xs"
  by (simp add: interpolate_def Let_def)

lemma nth_interpolate:
  assumes "i < length xs"
  shows "interpolate s e v xs ! i =
           (xs ! i)\<lparr>tk_start := slotTime s e (length xs) i,
                    tk_end := slotTime s e (length xs) (Suc i),
                    tk_voice := js_or (tk_voice (xs ! i)) v\<rparr>"
  using assms
  by (simp add: interpolate_def Let_def interpolateChild_def slotTime_def nth_enumerate_eq add.commute)

lemma timing_interpolate:
  "map timingOf (interpolate (tk_start p) (tk_end p) v xs) = evenSlots p v xs"
  by (rule nth_equalityI)
     (simp_all add: evenSlots_def nth_interpolate timingOf_def nth_enumerate_eq)

lemma kids_interpolate:
  "map tk_kids (interpolate s e v xs) = map tk_kids xs"
  by (rule nth_equalityI) (simp_all add: nth_interpolate)

lemma partlyTimed_alt:
  "partlyTimed xs \<longleftrightarrow> filter isTimed xs \<noteq> [] \<and> length (filter isTimed xs) < length xs"
  by (simp add: partlyTimed_def)

lemma timingOf_cleanupChars [simp]: "timingOf (cleanupChars v w) = timingOf w"
  by (simp add: cleanupChars_def timingOf_def Let_def split: option.splits)

lemma timingOf_clearWordText [simp]: "timingOf (clearWordText w) = timingOf w"
  by (simp add: clearWordText_def timingOf_def split: option.splits)

lemma timingOf_cleanupWords [simp]: "timingOf (cleanupWords l) = timingOf l"
  by (simp add: cleanupWords_def timingOf_def Let_def split: option.splits)

lemma timingOf_clearLineText [simp]: "timingOf (clearLineText l) = timingOf l"
  by (simp add: clearLineText_def timingOf_def split: option.splits)

lemma timingOf_clearBlockText [simp]: "timingOf (clearBlockText b) = timingOf b"
  by (simp add: clearBlockText_def timingOf_def)

lemma timingOf_cleanupBlock [simp]: "timingOf (cleanupBlock b) = timingOf b"
  by (simp add: cleanupBlock_def timingOf_def)

lemma timingOf_fields:
  "timingOf a = timingOf b \<Longrightarrow> tk_start a = tk_start b \<and> tk_end a = tk_end b \<and> tk_voice a = tk_voice b"
  by (simp add: timingOf_def)

lemma cleanupLines_cases:
  "cleanupLines b = (if partlyTimed (tk_kids b)
      then interpolate (tk_start b) (tk_end b) (tk_voice b) (tk_kids b) else tk_kids b)"
  by (auto simp: cleanupLines_def partlyTimed_def Let_def)

lemma length_cleanupLines [simp]: "length (cleanupLines b) = length (tk_kids b)"
  by (simp add: cleanupLines_cases)

lemma kids_clearBlockText: "tk_kids (clearBlockText b) = map clearLineText (tk_kids b)"
  by (simp add: clearBlockText_def)

lemma nth_cleanup:
  "bi < length d \<Longrightarrow> cleanupTimingData d ! bi = clearBlockText (cleanupBlock (d ! bi))"
  by (simp add: cleanupTimingData_def)

lemma kids_cleanup_block:
  "tk_kids (clearBlockText (cleanupBlock b)) = map (clearLineText \<circ> cleanupWords) (cleanupLines b)"
  by (simp add: clearBlockText_def cleanupBlock_def)

lemma lines_timing:
  "map timingOf (tk_kids (clearBlockText (cleanupBlock b))) = map timingOf (cleanupLines b)"
  by (simp add: kids_cleanup_block o_def)

lemma words_result:
  assumes "tk_kids l = Some ws"
  shows "tk_kids (clearLineText (cleanupWords l)) =
     (if filter isTimed ws = [] then None
      else Some (map (clearWordText \<circ> cleanupChars (tk_voice l))
         (if partlyTimed ws then interpolate (tk_start l) (tk_end l) (tk_voice l) ws else ws)))"
  using assms
  by (auto simp: cleanupWords_def clearLineText_def Let_def partlyTimed_def)

lemma chars_result:
  assumes "tk_kids w = Some cs"
  shows "tk_kids (clearWordText (cleanupChars v w)) =
     (if filter isTimed cs = [] then None
      else Some (if partlyTimed cs then interpolate (tk_start w) (tk_end w) (js_or (tk_voice w) v) cs else cs))"
  using assms
  by (auto simp: cleanupChars_def clearWordText_def Let_def partlyTimed_def)


lemma evenSlots_cong:
  "tk_start p = tk_start q \<Longrightarrow> tk_end p = tk_end q \<Longrightarrow> evenSlots p v xs = evenSlots q v xs"
  by (simp add: evenSlots_def)

lemma kids_cleanupLines_nth:
  "li < length (tk_kids b) \<Longrightarrow> tk_kids (cleanupLines b ! li) = tk_kids (tk_kids b ! li)"
  by (simp add: cleanupLines_cases nth_interpolate)

lemma line_at:
  "li < length (tk_kids b) \<Longrightarrow>
     tk_kids (clearBlockText (cleanupBlock b)) ! li = clearLineText (cleanupWords (cleanupLines b ! li))"
  by (simp add: kids_cleanup_block)

lemma kids_interpolate_nth:
  "i < length xs \<Longrightarrow> tk_kids (interpolate s e v xs ! i) = tk_kids (xs ! i)"
  by (simp add: nth_interpolate)

lemma words_interpolated:
  assumes "tk_kids l = Some ws" "filter isTimed ws \<noteq> []"
  shows "\<exists>ws'. tk_kids (clearLineText (cleanupWords l)) = Some ws'
     \<and> length ws' = length ws
     \<and> (partlyTimed ws \<longrightarrow>
           map timingOf ws' = evenSlots (clearLineText (cleanupWords l))
                                (tk_voice (clearLineText (cleanupWords l))) ws)
     \<and> (\<not> partlyTimed ws \<longrightarrow> map timingOf ws' = map timingOf ws)
     \<and> (\<forall>wi cs. wi < length ws \<and> tk_kids (ws ! wi) = Some cs \<and> partlyTimed cs \<longrightarrow>
           (\<exists>cs'. tk_kids (ws' ! wi) = Some cs'
              \<and> map timingOf cs' =
                  evenSlots (ws' ! wi)
                    (js_or (tk_voice (ws' ! wi)) (tk_voice (clearLineText (cleanupWords l)))) cs))"
proof -
  let ?l' = "clearLineText (cleanupWords l)"
  let ?ws1 = "if partlyTimed ws then interpolate (tk_start l) (tk_end l) (tk_voice l) ws else ws"
  let ?ws' = "map (clearWordText \<circ> cleanupChars (tk_voice l)) ?ws1"
  have tl: "tk_start ?l' = tk_start l" "tk_end ?l' = tk_end l" "tk_voice ?l' = tk_voice l"
    using timingOf_fields [of ?l' l] by simp_all
  have kids: "tk_kids ?l' = Some ?ws'"
    using words_result [OF assms(1)] assms(2) by simp
  have len: "length ?ws' = length ws" by simp
  have t1: "map timingOf ?ws' = map timingOf ?ws1" by (simp add: o_def)
  have mixed: "map timingOf ?ws' = evenSlots ?l' (tk_voice ?l') ws" if "partlyTimed ws"
  proof -
    have "map timingOf ?ws' = map timingOf (interpolate (tk_start l) (tk_end l) (tk_voice l) ws)"
      using t1 that by simp
    also have "\<dots> = evenSlots l (tk_voice l) ws" by (rule timing_interpolate)
    also have "\<dots> = evenSlots ?l' (tk_voice l) ws"
      by (rule evenSlots_cong) (simp_all only: tl)
    finally show ?thesis by (simp only: tl)
  qed
  have same: "\<not> partlyTimed ws \<longrightarrow> map timingOf ?ws' = map timingOf ws"
    using t1 by simp
  have chars: "\<exists>cs'. tk_kids (?ws' ! wi) = Some cs'
              \<and> map timingOf cs' = evenSlots (?ws' ! wi) (js_or (tk_voice (?ws' ! wi)) (tk_voice ?l')) cs"
    if wi: "wi < length ws" and cs: "tk_kids (ws ! wi) = Some cs" and pt: "partlyTimed cs" for wi cs
  proof -
    let ?w1 = "?ws1 ! wi"
    have k1: "tk_kids ?w1 = Some cs" using wi cs by (simp add: kids_interpolate_nth)
    have nth: "?ws' ! wi = clearWordText (cleanupChars (tk_voice l) ?w1)"
      using wi by simp
    have tw: "tk_start (?ws' ! wi) = tk_start ?w1" "tk_end (?ws' ! wi) = tk_end ?w1"
      "tk_voice (?ws' ! wi) = tk_voice ?w1"
      using timingOf_fields [of "?ws' ! wi" ?w1] nth by simp_all
    have ne: "filter isTimed cs \<noteq> []" using pt by (simp add: partlyTimed_def)
    have "tk_kids (?ws' ! wi) =
            Some (interpolate (tk_start ?w1) (tk_end ?w1) (js_or (tk_voice ?w1) (tk_voice l)) cs)"
      using chars_result [OF k1, of "tk_voice l"] pt ne nth by simp
    moreover have "map timingOf (interpolate (tk_start ?w1) (tk_end ?w1) (js_or (tk_voice ?w1) (tk_voice l)) cs)
        = evenSlots (?ws' ! wi) (js_or (tk_voice (?ws' ! wi)) (tk_voice ?l')) cs"
    proof -
      have "map timingOf (interpolate (tk_start ?w1) (tk_end ?w1) (js_or (tk_voice ?w1) (tk_voice l)) cs)
          = evenSlots ?w1 (js_or (tk_voice ?w1) (tk_voice l)) cs"
        by (rule timing_interpolate)
      also have "\<dots> = evenSlots (?ws' ! wi) (js_or (tk_voice ?w1) (tk_voice l)) cs"
        by (rule evenSlots_cong) (simp_all only: tw)
      finally show ?thesis by (simp only: tw tl)
    qed
    ultimately show ?thesis by simp
  qed
  show ?thesis
    using kids len mixed same chars by blast
qed

lemma cleanupWords_split: "cleanupWords = charsOfLine \<circ> wordsOfLine"
  by (rule ext)
     (auto simp: cleanupWords_def charsOfLine_def wordsOfLine_def Let_def split: option.splits)

lemma cleanup_nestedMixDoc:
  "cleanupTimingData nestedMixDoc =
     [mkBlock [] 1000 5000 1
        [mkLine [] 1000 3000 1
           (Some [mkWord ''la'' 1000 2000 1 None, mkWord ''la'' 2000 3000 1 None]),
         mkLine ''na'' 3000 5000 1 None]]"
  by code_simp

lemma bottomUp_nestedMixDoc:
  "cleanupBottomUp nestedMixDoc =
     [mkBlock [] 1000 5000 1
        [mkLine [] 1000 3000 1
           (Some [mkWord ''la'' 1000 1500 1 None, mkWord ''la'' 1500 2000 1 None]),
         mkLine ''na'' 3000 5000 1 None]]"
  by code_simp

text \<open>
  The slot times are computed in doubles, the quotient first: in a block 0--61 of
  fourteen lines the boundary before line 7 is \<open>7 * (61 / 14)\<close>, which is just below
  the exact 30.5 and is rounded to 30, where the exact \<open>7 * 61 / 14\<close> rounds to 31.
\<close>

lemma interpolation_rounding_example:
  "partlyTimed (tk_kids (fourteenLinesDoc ! 0))
   \<and> js_mul 7 (js_div 61 14) < 61 / 2
   \<and> map timingOf (take 2 (drop 6 (tk_kids (cleanupTimingData fourteenLinesDoc ! 0))))
       = [(26, 30, 0), (30, 35, 0)]
   \<and> math_round (0 + 7 * 61 / 14) = 31"
  by code_simp

text \<open>
  Claim C2 as stated fails where the parent was itself redistributed in the same pass:
  the first line of \<open>nestedMixDoc\<close> is recorded as 1000--2000, but its words are spread
  over 1000--3000, the bounds the line got from the block.
\<close>

theorem interpolation_from_recorded_bounds_counterexample:
  "partlyTimed (the (tk_kids (tk_kids (nestedMixDoc ! 0) ! 0)))
   \<and> map timingOf (the (tk_kids (tk_kids (cleanupTimingData nestedMixDoc ! 0) ! 0)))
       \<noteq> evenSlots (tk_kids (nestedMixDoc ! 0) ! 0) (tk_voice (tk_kids (nestedMixDoc ! 0) ! 0))
             (the (tk_kids (tk_kids (nestedMixDoc ! 0) ! 0)))"
  by code_simp

text \<open>
  Claim C2, amended: the cleanup leaves a block's own timing alone. Where a parent's
  children are a strict mix of timed and untimed, child \<open>i\<close> of \<open>N\<close> gets
  \<open>start + i * ((end - start) / N)\<close> and \<open>start + (i + 1) * ((end - start) / N)\<close>,
  computed in doubles in this order and then rounded to an integer (\<open>evenSlots\<close>),
  from the bounds the parent has after its own level was processed (its recorded bounds
  unless the parent was itself redistributed, then the redistributed ones), whatever
  the children's previous timings were; a child without a voice gets the parent's voice,
  and a character whose word has no voice either gets the line's. Children that are not
  a strict mix keep their timings. Words and characters are reached only in a
  \<^verbatim>\<open>words\<close> array that has a timed member.
\<close>

theorem cleanup_interpolation:
  fixes d :: document
  assumes bi: "bi < length d"
  defines "B \<equiv> d ! bi" and "B' \<equiv> cleanupTimingData d ! bi"
  shows "timingOf B' = timingOf B
     \<and> length (tk_kids B') = length (tk_kids B)
     \<and> (partlyTimed (tk_kids B) \<longrightarrow>
          map timingOf (tk_kids B') = evenSlots B' (tk_voice B') (tk_kids B))
     \<and> (\<not> partlyTimed (tk_kids B) \<longrightarrow> map timingOf (tk_kids B') = map timingOf (tk_kids B))
     \<and> (\<forall>li ws. li < length (tk_kids B) \<and> tk_kids (tk_kids B ! li) = Some ws
            \<and> filter isTimed ws \<noteq> [] \<longrightarrow>
          (\<exists>ws'. tk_kids (tk_kids B' ! li) = Some ws'
             \<and> length ws' = length ws
             \<and> (partlyTimed ws \<longrightarrow>
                  map timingOf ws'
                    = evenSlots (tk_kids B' ! li) (tk_voice (tk_kids B' ! li)) ws)
             \<and> (\<not> partlyTimed ws \<longrightarrow> map timingOf ws' = map timingOf ws)
             \<and> (\<forall>wi cs. wi < length ws \<and> tk_kids (ws ! wi) = Some cs \<and> partlyTimed cs \<longrightarrow>
                  (\<exists>cs'. tk_kids (ws' ! wi) = Some cs'
                     \<and> map timingOf cs'
                         = evenSlots (ws' ! wi)
                             (js_or (tk_voice (ws' ! wi)) (tk_voice (tk_kids B' ! li))) cs))))"
proof -
  have B': "B' = clearBlockText (cleanupBlock B)"
    using bi by (simp add: B'_def B_def nth_cleanup)
  have t: "timingOf B' = timingOf B" by (simp add: B')
  then have tb: "tk_start B' = tk_start B" "tk_end B' = tk_end B" "tk_voice B' = tk_voice B"
    using timingOf_fields by blast+
  have len: "length (tk_kids B') = length (tk_kids B)"
    by (simp add: B' kids_cleanup_block)
  have lt: "map timingOf (tk_kids B') = map timingOf (cleanupLines B)"
    by (simp add: B' lines_timing)
  have mixed: "map timingOf (tk_kids B') = evenSlots B' (tk_voice B') (tk_kids B)"
    if "partlyTimed (tk_kids B)"
  proof -
    have "map timingOf (tk_kids B')
        = map timingOf (interpolate (tk_start B) (tk_end B) (tk_voice B) (tk_kids B))"
      using lt that by (simp add: cleanupLines_cases)
    also have "\<dots> = evenSlots B (tk_voice B) (tk_kids B)" by (rule timing_interpolate)
    also have "\<dots> = evenSlots B' (tk_voice B) (tk_kids B)"
      by (rule evenSlots_cong) (simp_all only: tb)
    finally show ?thesis by (simp only: tb)
  qed
  have same: "\<not> partlyTimed (tk_kids B) \<longrightarrow> map timingOf (tk_kids B') = map timingOf (tk_kids B)"
    using lt by (simp add: cleanupLines_cases)
  have lines: "\<exists>ws'. tk_kids (tk_kids B' ! li) = Some ws'
             \<and> length ws' = length ws
             \<and> (partlyTimed ws \<longrightarrow>
                  map timingOf ws'
                    = evenSlots (tk_kids B' ! li) (tk_voice (tk_kids B' ! li)) ws)
             \<and> (\<not> partlyTimed ws \<longrightarrow> map timingOf ws' = map timingOf ws)
             \<and> (\<forall>wi cs. wi < length ws \<and> tk_kids (ws ! wi) = Some cs \<and> partlyTimed cs \<longrightarrow>
                  (\<exists>cs'. tk_kids (ws' ! wi) = Some cs'
                     \<and> map timingOf cs'
                         = evenSlots (ws' ! wi)
                             (js_or (tk_voice (ws' ! wi)) (tk_voice (tk_kids B' ! li))) cs))"
    if li: "li < length (tk_kids B)" and ws: "tk_kids (tk_kids B ! li) = Some ws"
      and ne: "filter isTimed ws \<noteq> []" for li ws
  proof -
    have k: "tk_kids (cleanupLines B ! li) = Some ws"
      using li ws by (simp add: kids_cleanupLines_nth)
    have at: "tk_kids B' ! li = clearLineText (cleanupWords (cleanupLines B ! li))"
      using li by (simp add: B' line_at)
    show ?thesis
      unfolding at by (rule words_interpolated [OF k ne])
  qed
  show ?thesis
    using t len mixed same lines by blast
qed

theorem cleanup_interpolation_witness:
  "0 < length nestedMixDoc
   \<and> partlyTimed (tk_kids (nestedMixDoc ! 0))
   \<and> map timingOf (tk_kids (cleanupTimingData nestedMixDoc ! 0))
       = evenSlots (cleanupTimingData nestedMixDoc ! 0)
           (tk_voice (cleanupTimingData nestedMixDoc ! 0)) (tk_kids (nestedMixDoc ! 0))
   \<and> evenSlots (cleanupTimingData nestedMixDoc ! 0)
           (tk_voice (cleanupTimingData nestedMixDoc ! 0)) (tk_kids (nestedMixDoc ! 0))
       = [(1000, 3000, 1), (3000, 5000, 1)]"
proof -
  have h: "0 < length nestedMixDoc" by (simp add: nestedMixDoc_def)
  have p: "partlyTimed (tk_kids (nestedMixDoc ! 0))" by code_simp
  have v: "evenSlots (cleanupTimingData nestedMixDoc ! 0)
           (tk_voice (cleanupTimingData nestedMixDoc ! 0)) (tk_kids (nestedMixDoc ! 0))
       = [(1000, 3000, 1), (3000, 5000, 1)]" by code_simp
  show ?thesis using cleanup_interpolation [OF h] h p v by blast
qed

text \<open>
  Claim C10 as stated fails: the bottom-up order (characters, words, lines) gives the
  words of the first line of \<open>nestedMixDoc\<close> the span 1000--2000, the source gives them
  1000--3000.
\<close>

theorem cleanup_bottom_up_counterexample:
  "cleanupTimingData nestedMixDoc \<noteq> cleanupBottomUp nestedMixDoc"
  unfolding cleanup_nestedMixDoc bottomUp_nestedMixDoc
  by (simp add: mkBlock_def mkLine_def mkWord_def)

text \<open>
  Claim C10, amended: the cleanup pass works top-down. It is the line-level
  interpolation of every block, then the word-level step of every line, then the
  character-level step of every word, then the text clearing.
\<close>

theorem cleanup_is_top_down:
  "cleanupTimingData d = cleanupTopDown d"
  by (simp add: cleanupTimingData_def cleanupTopDown_def clearTextPass_def
      interpolateCharsPass_def interpolateWordsPass_def interpolateLinesPass_def
      cleanupBlock_def cleanupWords_split o_def)

lemma js_or_idem [simp]: "js_or (js_or a v) v = js_or a v"
  by (simp add: js_or_def)

lemma interpolate_fixed:
  assumes "map timingOf zs = map timingOf (interpolate s e v xs)"
  shows "interpolate s e v zs = zs"
proof (rule nth_equalityI)
  show "length (interpolate s e v zs) = length zs" by simp
next
  fix i assume "i < length (interpolate s e v zs)"
  then have i: "i < length zs" by simp
  have len: "length zs = length xs"
    using arg_cong [OF assms, of length] by simp
  have "timingOf (zs ! i) = timingOf (interpolate s e v xs ! i)"
    using arg_cong [OF assms, of "\<lambda>l. l ! i"] i len by simp
  then have t: "tk_start (zs ! i) = slotTime s e (length xs) i"
    "tk_end (zs ! i) = slotTime s e (length xs) (Suc i)"
    "tk_voice (zs ! i) = js_or (tk_voice (xs ! i)) v"
    using i len by (simp_all add: timingOf_def nth_interpolate)
  have a: "slotTime s e (length zs) i = tk_start (zs ! i)"
    and b: "slotTime s e (length zs) (Suc i) = tk_end (zs ! i)"
    and c: "js_or (tk_voice (zs ! i)) v = tk_voice (zs ! i)"
    by (simp_all add: t len)
  have "interpolate s e v zs ! i =
          (zs ! i)\<lparr>tk_start := slotTime s e (length zs) i,
                   tk_end := slotTime s e (length zs) (Suc i),
                   tk_voice := js_or (tk_voice (zs ! i)) v\<rparr>"
    using i by (rule nth_interpolate)
  also have "\<dots> = (zs ! i)\<lparr>tk_start := tk_start (zs ! i), tk_end := tk_end (zs ! i),
                           tk_voice := tk_voice (zs ! i)\<rparr>"
    by (simp only: a b c)
  also have "\<dots> = zs ! i" by simp
  finally show "interpolate s e v zs ! i = zs ! i" .
qed

lemma timed_count_cong:
  assumes "map timingOf zs = map timingOf ys"
  shows "length (filter isTimed zs) = length (filter isTimed ys)"
proof -
  define P :: "int \<times> int \<times> int \<Rightarrow> bool" where "P = (\<lambda>p. fst p \<noteq> 0 \<or> fst (snd p) \<noteq> 0)"
  have P: "isTimed t = P (timingOf t)" for t :: "'x token"
    by (simp add: P_def isTimed_def timingOf_def)
  have "length (filter isTimed xs) = length (filter P (map timingOf xs))"
    for xs :: "'x token list"
    by (induction xs) (simp_all add: P)
  then show ?thesis using assms by metis
qed

lemma partlyTimed_cong:
  assumes "map timingOf zs = map timingOf ys"
  shows "partlyTimed zs = partlyTimed ys"
  using timed_count_cong [OF assms] arg_cong [OF assms, of length]
  by (simp add: partlyTimed_def)

lemma level_stable:
  assumes "map timingOf zs =
     map timingOf (if partlyTimed xs then interpolate s e v xs else xs)"
  shows "(if partlyTimed zs then interpolate s e v zs else zs) = zs"
proof (cases "partlyTimed zs")
  case False
  then show ?thesis by simp
next
  case True
  have "partlyTimed xs"
  proof (rule ccontr)
    assume n: "\<not> partlyTimed xs"
    then have "map timingOf zs = map timingOf xs" using assms by simp
    then show False using partlyTimed_cong True n by blast
  qed
  then have "interpolate s e v zs = zs"
    using assms interpolate_fixed by simp
  then show ?thesis by simp
qed


lemma clearWordText_idem [simp]: "clearWordText (clearWordText w) = clearWordText w"
  by (simp add: clearWordText_def split: option.splits)

lemma clearLineText_idem [simp]: "clearLineText (clearLineText l) = clearLineText l"
  by (simp add: clearLineText_def split: option.splits)

lemma clearBlockText_idem [simp]: "clearBlockText (clearBlockText b) = clearBlockText b"
  by (simp add: clearBlockText_def)

lemma cleanupChars_stable:
  assumes ok: "wordHasTimedChars (clearWordText (cleanupChars v w))"
  shows "cleanupChars v (clearWordText (cleanupChars v w)) = clearWordText (cleanupChars v w)"
proof (cases "tk_kids w")
  case None
  then show ?thesis by (simp add: cleanupChars_def clearWordText_def)
next
  case (Some cs)
  let ?z = "clearWordText (cleanupChars v w)"
  let ?cs1 = "if partlyTimed cs
              then interpolate (tk_start w) (tk_end w) (js_or (tk_voice w) v) cs else cs"
  have tz: "tk_start ?z = tk_start w" "tk_end ?z = tk_end w" "tk_voice ?z = tk_voice w"
    using timingOf_fields [of ?z w] by simp_all
  show ?thesis
  proof (cases "filter isTimed cs = []")
    case True
    then have "tk_kids ?z = None" using chars_result [OF Some, of v] by simp
    then show ?thesis by (simp add: cleanupChars_def)
  next
    case False
    then have kz: "tk_kids ?z = Some ?cs1" using chars_result [OF Some, of v] by simp
    have ne: "filter isTimed ?cs1 \<noteq> []"
      using ok kz by (simp add: wordHasTimedChars_def)
    have st: "(if partlyTimed ?cs1
               then interpolate (tk_start w) (tk_end w) (js_or (tk_voice w) v) ?cs1 else ?cs1) = ?cs1"
      by (rule level_stable) simp
    have "cleanupChars v ?z =
            ?z\<lparr>tk_kids := Some (if partlyTimed ?cs1
               then interpolate (tk_start w) (tk_end w) (js_or (tk_voice w) v) ?cs1 else ?cs1)\<rparr>"
      using kz ne
      by (simp add: cleanupChars_def [of v ?z] Let_def partlyTimed_def tz del: timingOf_cleanupChars)
    also have "\<dots> = ?z\<lparr>tk_kids := tk_kids ?z\<rparr>" by (simp only: st kz)
    finally show ?thesis by simp
  qed
qed


lemma cleanupWords_Some:
  assumes "tk_kids z = Some zs" "filter isTimed zs \<noteq> []"
  shows "cleanupWords z =
           z\<lparr>tk_kids := Some (map (cleanupChars (tk_voice z))
              (if partlyTimed zs
               then interpolate (tk_start z) (tk_end z) (tk_voice z) zs else zs))\<rparr>"
  using assms by (simp add: cleanupWords_def Let_def partlyTimed_def)

lemma cleanupWords_stable:
  assumes ok: "lineHasTimedWords (clearLineText (cleanupWords l))"
  shows "cleanupWords (clearLineText (cleanupWords l)) = clearLineText (cleanupWords l)"
proof (cases "tk_kids l")
  case None
  then show ?thesis by (simp add: cleanupWords_def clearLineText_def)
next
  case (Some ws)
  let ?z = "clearLineText (cleanupWords l)"
  let ?ws1 = "if partlyTimed ws then interpolate (tk_start l) (tk_end l) (tk_voice l) ws else ws"
  let ?zs = "map (clearWordText \<circ> cleanupChars (tk_voice l)) ?ws1"
  have tz: "tk_start ?z = tk_start l" "tk_end ?z = tk_end l" "tk_voice ?z = tk_voice l"
    using timingOf_fields [of ?z l] by simp_all
  show ?thesis
  proof (cases "filter isTimed ws = []")
    case True
    then have "tk_kids ?z = None" using words_result [OF Some] by simp
    then show ?thesis by (simp add: cleanupWords_def)
  next
    case False
    then have kz: "tk_kids ?z = Some ?zs" using words_result [OF Some] by simp
    have ne: "filter isTimed ?zs \<noteq> []" and all: "list_all wordHasTimedChars ?zs"
      using ok kz by (simp_all add: lineHasTimedWords_def)
    have "map timingOf ?zs = map timingOf ?ws1" by (simp add: o_def)
    then have st: "(if partlyTimed ?zs
               then interpolate (tk_start l) (tk_end l) (tk_voice l) ?zs else ?zs) = ?zs"
      by (rule level_stable)
    have chars: "map (cleanupChars (tk_voice l)) ?zs = ?zs"
    proof (rule map_idI)
      fix z assume "z \<in> set ?zs"
      then obtain w where z: "z = clearWordText (cleanupChars (tk_voice l) w)" by auto
      have "wordHasTimedChars z" using all \<open>z \<in> set ?zs\<close> unfolding list_all_iff by blast
      then show "cleanupChars (tk_voice l) z = z"
        unfolding z by (rule cleanupChars_stable)
    qed
    have "cleanupWords ?z =
            ?z\<lparr>tk_kids := Some (map (cleanupChars (tk_voice l))
               (if partlyTimed ?zs
                then interpolate (tk_start l) (tk_end l) (tk_voice l) ?zs else ?zs))\<rparr>"
      using cleanupWords_Some [OF kz ne] by (simp only: tz)
    also have "\<dots> = ?z\<lparr>tk_kids := tk_kids ?z\<rparr>" by (simp only: st chars kz)
    finally show ?thesis by simp
  qed
qed

lemma cleanupBlock_stable:
  assumes ok: "list_all lineHasTimedWords (tk_kids (clearBlockText (cleanupBlock b)))"
  shows "cleanupBlock (clearBlockText (cleanupBlock b)) = clearBlockText (cleanupBlock b)"
proof -
  let ?z = "clearBlockText (cleanupBlock b)"
  let ?zs = "map (clearLineText \<circ> cleanupWords) (cleanupLines b)"
  have tz: "tk_start ?z = tk_start b" "tk_end ?z = tk_end b" "tk_voice ?z = tk_voice b"
    using timingOf_fields [of ?z b] by simp_all
  have kz: "tk_kids ?z = ?zs" by (rule kids_cleanup_block)
  have "map timingOf ?zs = map timingOf (cleanupLines b)" by (simp add: o_def)
  then have "map timingOf ?zs =
      map timingOf (if partlyTimed (tk_kids b)
        then interpolate (tk_start b) (tk_end b) (tk_voice b) (tk_kids b) else tk_kids b)"
    by (simp only: cleanupLines_cases)
  then have st: "(if partlyTimed ?zs
               then interpolate (tk_start b) (tk_end b) (tk_voice b) ?zs else ?zs) = ?zs"
    by (rule level_stable)
  have lines: "cleanupLines ?z = ?zs"
    unfolding cleanupLines_cases [of ?z] kz tz by (rule st)
  have words: "map cleanupWords ?zs = ?zs"
  proof (rule map_idI)
    fix z assume in_zs: "z \<in> set ?zs"
    then obtain l where z: "z = clearLineText (cleanupWords l)" by auto
    have "lineHasTimedWords z" using ok in_zs unfolding kz list_all_iff by blast
    then show "cleanupWords z = z"
      unfolding z by (rule cleanupWords_stable)
  qed
  have "cleanupBlock ?z = ?z\<lparr>tk_kids := map cleanupWords (cleanupLines ?z)\<rparr>"
    by (rule cleanupBlock_def)
  also have "\<dots> = ?z\<lparr>tk_kids := tk_kids ?z\<rparr>" by (simp only: lines words kz)
  finally show ?thesis by simp
qed

text \<open>
  Claim C3 as stated fails: the first pass spreads the 0--0 span of the line of
  \<open>zeroLineDoc\<close> over its two words, which leaves both at 0--0; the second pass then
  finds no timed word and deletes the \<^verbatim>\<open>words\<close> array the first pass kept.
\<close>

theorem cleanup_twice_counterexample:
  "cleanupTimingData (cleanupTimingData zeroLineDoc) \<noteq> cleanupTimingData zeroLineDoc"
  by code_simp

text \<open>
  Claim C3, amended: running the cleanup pass twice gives the output of running it once
  whenever every \<^verbatim>\<open>words\<close> and \<^verbatim>\<open>chars\<close> array the first pass leaves has a timed
  member, that is, unless the first pass redistributed a 0--0 parent over partly timed
  children.
\<close>

theorem cleanup_idempotent:
  assumes "arraysHaveTiming (cleanupTimingData d)"
  shows "cleanupTimingData (cleanupTimingData d) = cleanupTimingData d"
proof -
  have "clearBlockText (cleanupBlock (clearBlockText (cleanupBlock b))) = clearBlockText (cleanupBlock b)"
    if "b \<in> set d" for b
  proof -
    have "list_all lineHasTimedWords (tk_kids (clearBlockText (cleanupBlock b)))"
      using assms that by (simp add: arraysHaveTiming_def cleanupTimingData_def list_all_iff)
    then show ?thesis by (simp add: cleanupBlock_stable)
  qed
  then show ?thesis by (simp add: cleanupTimingData_def)
qed

theorem cleanup_idempotent_witness:
  "arraysHaveTiming (cleanupTimingData nestedMixDoc)
   \<and> cleanupTimingData (cleanupTimingData nestedMixDoc) = cleanupTimingData nestedMixDoc"
proof -
  have h: "arraysHaveTiming (cleanupTimingData nestedMixDoc)" by code_simp
  show ?thesis using cleanup_idempotent [OF h] h by simp
qed

section \<open>Properties of recording and propagation\<close>

text \<open>
  The writes address the flattened arrays of the source: writing at a flat index that exists
  changes exactly that entry of \<^verbatim>\<open>allLines\<close>, \<^verbatim>\<open>allWords\<close> or \<^verbatim>\<open>allChars\<close>.
\<close>

lemma concat_updateAt:
  assumes "\<And>k p. k < count p \<Longrightarrow> g (upd k p) = (g p)[k := f (g p ! k)]"
    and "\<And>p. count p = length (g p)"
    and "i < length (concat (map g ps))"
  shows "concat (map g (updateAt count upd i ps))
           = (concat (map g ps))[i := f (concat (map g ps) ! i)]"
  using assms(3)
proof (induction ps arbitrary: i)
  case Nil
  then show ?case by simp
next
  case (Cons p ps)
  show ?case
  proof (cases "i < count p")
    case True
    then show ?thesis
      by (simp add: assms(1) assms(2) [symmetric] list_update_append nth_append)
  next
    case False
    then have "i - count p < length (concat (map g ps))"
      using Cons.prems by (simp add: assms(2))
    then show ?thesis
      using False Cons.IH [of "i - count p"]
      by (simp add: assms(2) list_update_append nth_append)
  qed
qed

lemma allLines_writeLine:
  assumes "i < length (allLines d)"
  shows "allLines (writeLine i f d) = (allLines d)[i := f (allLines d ! i)]"
  unfolding allLines_def writeLine_def
  by (rule concat_updateAt) (use assms in \<open>simp_all add: allLines_def\<close>)

lemma wordsOf_writeWordInLine:
  "k < length (wordsOf l) \<Longrightarrow>
     wordsOf (writeWordInLine f k l) = (wordsOf l)[k := f (wordsOf l ! k)]"
  by (simp add: writeWordInLine_def wordsOf_def split: option.splits)

lemma allWords_writeWord:
  assumes "i < length (allWords d)"
  shows "allWords (writeWord i f d) = (allWords d)[i := f (allWords d ! i)]"
  unfolding allWords_def writeWord_def
proof (rule concat_updateAt)
  show "i < length (concat (map (\<lambda>b. concat (map wordsOf (tk_kids b))) d))"
    using assms by (simp add: allWords_def)
next
  fix k and b :: block
  assume k: "k < length (concat (map wordsOf (tk_kids b)))"
  have "concat (map wordsOf (updateAt (\<lambda>l. length (wordsOf l)) (writeWordInLine f) k (tk_kids b)))
      = (concat (map wordsOf (tk_kids b)))[k := f (concat (map wordsOf (tk_kids b)) ! k)]"
    by (rule concat_updateAt) (use k in \<open>simp_all add: wordsOf_writeWordInLine\<close>)
  then show "concat (map wordsOf (tk_kids (b\<lparr>tk_kids :=
        updateAt (\<lambda>l. length (wordsOf l)) (writeWordInLine f) k (tk_kids b)\<rparr>)))
      = (concat (map wordsOf (tk_kids b)))[k := f (concat (map wordsOf (tk_kids b)) ! k)]"
    by simp
qed simp

lemma charsOf_writeCharInWord:
  "k < length (charsOf w) \<Longrightarrow>
     charsOf (writeCharInWord f k w) = (charsOf w)[k := f (charsOf w ! k)]"
  by (simp add: writeCharInWord_def charsOf_def split: option.splits)

lemma charsOfLineFlat_writeCharInLine:
  assumes "k < length (charsOfLineFlat l)"
  shows "charsOfLineFlat (writeCharInLine f k l)
           = (charsOfLineFlat l)[k := f (charsOfLineFlat l ! k)]"
proof (cases "tk_kids l")
  case None
  then show ?thesis using assms by (simp add: charsOfLineFlat_def wordsOf_def)
next
  case (Some ws)
  have "concat (map charsOf (updateAt (\<lambda>w. length (charsOf w)) (writeCharInWord f) k ws))
      = (concat (map charsOf ws))[k := f (concat (map charsOf ws) ! k)]"
    by (rule concat_updateAt)
       (use assms Some in \<open>simp_all add: charsOf_writeCharInWord charsOfLineFlat_def wordsOf_def\<close>)
  then show ?thesis
    using Some by (simp add: writeCharInLine_def charsOfLineFlat_def wordsOf_def)
qed

lemma allChars_writeChar:
  assumes "i < length (allChars d)"
  shows "allChars (writeChar i f d) = (allChars d)[i := f (allChars d ! i)]"
  unfolding allChars_def writeChar_def
proof (rule concat_updateAt)
  show "i < length (concat (map (\<lambda>b. concat (map charsOfLineFlat (tk_kids b))) d))"
    using assms by (simp add: allChars_def)
next
  fix k and b :: block
  assume k: "k < length (concat (map charsOfLineFlat (tk_kids b)))"
  have "concat (map charsOfLineFlat
          (updateAt (\<lambda>l. length (charsOfLineFlat l)) (writeCharInLine f) k (tk_kids b)))
      = (concat (map charsOfLineFlat (tk_kids b)))
          [k := f (concat (map charsOfLineFlat (tk_kids b)) ! k)]"
    by (rule concat_updateAt) (use k in \<open>simp_all add: charsOfLineFlat_writeCharInLine\<close>)
  then show "concat (map charsOfLineFlat (tk_kids (b\<lparr>tk_kids :=
        updateAt (\<lambda>l. length (charsOfLineFlat l)) (writeCharInLine f) k (tk_kids b)\<rparr>)))
      = (concat (map charsOfLineFlat (tk_kids b)))
          [k := f (concat (map charsOfLineFlat (tk_kids b)) ! k)]"
    by simp
qed simp

lemma widenParent_other [simp]:
  "tk_text (widenParent p cs) = tk_text p"
  "tk_voice (widenParent p cs) = tk_voice p"
  "tk_position (widenParent p cs) = tk_position p"
  "tk_kids (widenParent p cs) = tk_kids p"
  by (simp_all add: widenParent_def Let_def)

lemma recomputed_widenParent:
  assumes "timingOf p = timingOf q"
  shows "recomputed q (widenParent p cs) cs"
  using timingOf_fields [OF assms]
  by (auto simp: recomputed_def widenParent_def Let_def)

lemma Min_recorded_pos:
  assumes "filter isRecorded cs \<noteq> []"
  shows "0 < Min (set (map tk_start (filter isRecorded cs)))"
    and "0 < Max (set (map tk_end (filter isRecorded cs)))"
proof -
  let ?T = "filter isRecorded cs"
  obtain c where c: "c \<in> set ?T" using assms by (cases ?T) auto
  define S where "S = set (map tk_start ?T)"
  define E where "E = set (map tk_end ?T)"
  have fin: "finite S" "S \<noteq> {}" "finite E" "tk_end c \<in> E"
    using c by (auto simp: S_def E_def)
  have "\<forall>x \<in> S. 0 < x" by (auto simp: S_def isRecorded_def)
  then have "0 < Min S" using fin by (simp add: Min_gr_iff)
  then show "0 < Min (set (map tk_start ?T))" by (simp only: S_def)
  have "0 < tk_end c" using c by (simp add: isRecorded_def)
  moreover have "tk_end c \<le> Max E" using fin by (intro Max_ge)
  ultimately have "0 < Max E" by linarith
  then show "0 < Max (set (map tk_end ?T))" by (simp only: E_def)
qed

lemma recomputed_widened:
  assumes "recomputed old new cs"
  shows "widened old new"
proof (cases "filter isRecorded cs = []")
  case True
  then show ?thesis using assms by (simp add: recomputed_def widened_def)
next
  case False
  note pos = Min_recorded_pos [OF False]
  show ?thesis
    using assms False pos
    by (auto simp: recomputed_def widened_def Let_def split: if_splits)
qed

lemma widened_refl: "timingOf a = timingOf b \<Longrightarrow> widened a b"
  by (simp add: widened_def timingOf_def)

lemma widened_trans: "widened a b \<Longrightarrow> widened b c \<Longrightarrow> widened a c"
  by (auto simp: widened_def)


lemma updateAt_map:
  assumes "\<And>k p. g (upd k p) = g p"
  shows "map g (updateAt count upd i ps) = map g ps"
  by (induction ps arbitrary: i) (simp_all add: assms)

lemma length_updateAt [simp]: "length (updateAt count upd i ps) = length ps"
  by (induction ps arbitrary: i) simp_all

lemma update_nth_map:
  assumes "\<And>x. g (f x) = g x"
  shows "map g (xs[k := f (xs ! k)]) = map g xs"
  by (simp add: map_update assms) (metis list_update_beyond list_update_id nth_map not_le_imp_less length_map)

lemma allWords_allLines: "allWords d = concat (map wordsOf (allLines d))"
  by (induction d) (simp_all add: allWords_def allLines_def)

lemma timingOf_kids_update [simp]: "timingOf (t\<lparr>tk_kids := k\<rparr>) = timingOf t"
  by (simp add: timingOf_def)

lemma timingOf_writeWordInLine [simp]: "timingOf (writeWordInLine f k l) = timingOf l"
  by (simp add: writeWordInLine_def split: option.splits)

lemma timingOf_writeCharInWord [simp]: "timingOf (writeCharInWord f k w) = timingOf w"
  by (simp add: writeCharInWord_def split: option.splits)

lemma timingOf_writeCharInLine [simp]: "timingOf (writeCharInLine f k l) = timingOf l"
  by (simp add: writeCharInLine_def split: option.splits)

lemma wordsTiming_writeCharInLine:
  "map timingOf (wordsOf (writeCharInLine f k l)) = map timingOf (wordsOf l)"
  by (simp add: writeCharInLine_def wordsOf_def updateAt_map split: option.splits)

lemma timing_writeLine: "map timingOf (writeLine i f d) = map timingOf d"
  by (simp add: writeLine_def updateAt_map)

lemma timing_writeWord: "map timingOf (writeWord i f d) = map timingOf d"
  by (simp add: writeWord_def updateAt_map)

lemma timing_writeChar: "map timingOf (writeChar i f d) = map timingOf d"
  by (simp add: writeChar_def updateAt_map)

lemma timing_allLines: "map timingOf (allLines d) = concat (map (\<lambda>b. map timingOf (tk_kids b)) d)"
  by (simp add: allLines_def map_concat o_def)

lemma timing_allWords:
  "map timingOf (allWords d) = concat (map (\<lambda>l. map timingOf (wordsOf l)) (allLines d))"
  by (simp add: allWords_allLines map_concat o_def)

lemma lines_timing_writeWord:
  "map timingOf (allLines (writeWord i f d)) = map timingOf (allLines d)"
proof -
  have "map (\<lambda>b. map timingOf (tk_kids b)) (writeWord i f d) = map (\<lambda>b. map timingOf (tk_kids b)) d"
    unfolding writeWord_def by (rule updateAt_map) (simp add: updateAt_map)
  then show ?thesis by (simp only: timing_allLines)
qed

lemma lines_timing_writeChar:
  "map timingOf (allLines (writeChar i f d)) = map timingOf (allLines d)"
proof -
  have "map (\<lambda>b. map timingOf (tk_kids b)) (writeChar i f d) = map (\<lambda>b. map timingOf (tk_kids b)) d"
    unfolding writeChar_def by (rule updateAt_map) (simp add: updateAt_map)
  then show ?thesis by (simp only: timing_allLines)
qed

lemma words_timing_writeChar:
  "map timingOf (allWords (writeChar i f d)) = map timingOf (allWords d)"
proof -
  let ?g = "\<lambda>b. concat (map (\<lambda>l. map timingOf (wordsOf l)) (tk_kids b))"
  have "map ?g (writeChar i f d) = map ?g d"
    unfolding writeChar_def
    by (rule updateAt_map) (simp add: updateAt_map wordsTiming_writeCharInLine)
  moreover have "map timingOf (allWords x) = concat (map ?g x)" for x
    by (induction x) (simp_all add: allWords_def map_concat o_def)
  ultimately show ?thesis by simp
qed

lemma kids_updateBlockTimingFromLines:
  "map tk_kids (updateBlockTimingFromLines x) = map tk_kids x"
  by (simp add: updateBlockTimingFromLines_def)

lemma allLines_updateBlock [simp]: "allLines (updateBlockTimingFromLines x) = allLines x"
  by (simp add: allLines_def kids_updateBlockTimingFromLines)

lemma allLines_map_kids:
  "allLines (map (\<lambda>b. b\<lparr>tk_kids := map h (tk_kids b)\<rparr>) x) = map h (allLines x)"
  by (simp add: allLines_def map_concat o_def)

lemma wordsOf_widenLine [simp]: "wordsOf (widenLine l) = wordsOf l"
  by (simp add: widenLine_def wordsOf_def split: option.splits)

lemma wordsOf_widenWordsOfLine [simp]: "wordsOf (widenWordsOfLine l) = map widenWord (wordsOf l)"
  by (simp add: widenWordsOfLine_def wordsOf_def split: option.splits)

lemma charsOf_widenWord [simp]: "charsOf (widenWord w) = charsOf w"
  by (simp add: widenWord_def charsOf_def split: option.splits)

lemma allLines_FromWords:
  "allLines (updateParentTimingFromWords x) = map widenLine (allLines x)"
  by (simp add: updateParentTimingFromWords_def allLines_map_kids)

lemma allWords_FromWords [simp]: "allWords (updateParentTimingFromWords x) = allWords x"
  by (simp add: allWords_allLines allLines_FromWords o_def)

lemma allLines_FromChars:
  "allLines (updateParentTimingFromChars x) = map (widenLine \<circ> widenWordsOfLine) (allLines x)"
  by (simp add: updateParentTimingFromChars_def allLines_FromWords allLines_map_kids)

lemma allWords_FromChars:
  "allWords (updateParentTimingFromChars x) = map widenWord (allWords x)"
  by (simp add: allWords_allLines allLines_FromChars o_def map_concat)

lemma timingOf_widenWordsOfLine [simp]: "timingOf (widenWordsOfLine l) = timingOf l"
  by (simp add: widenWordsOfLine_def split: option.splits)

lemma list_all2_map_timing:
  assumes "map timingOf d1 = map timingOf d"
    and "\<And>x y. timingOf y = timingOf x \<Longrightarrow> R x (h y)"
  shows "list_all2 R d (map h d1)"
proof -
  have len: "length d1 = length d" using arg_cong [OF assms(1), of length] by simp
  have "timingOf (d1 ! i) = timingOf (d ! i)" if "i < length d" for i
    using arg_cong [OF assms(1), of "\<lambda>l. l ! i"] that len by simp
  then show ?thesis
    using len by (simp add: list_all2_conv_all_nth assms(2))
qed

lemma recomputed_widenLine:
  assumes "timingOf y = timingOf x"
  shows "recomputed x (widenLine y) (wordsOf (widenLine y))"
proof (cases "tk_kids y")
  case None
  then show ?thesis
    using timingOf_fields [OF assms] by (simp add: widenLine_def wordsOf_def recomputed_def)
next
  case (Some ws)
  then show ?thesis
    using recomputed_widenParent [OF assms, of ws] by (simp add: widenLine_def wordsOf_def)
qed

lemma recomputed_widenWord:
  assumes "timingOf y = timingOf x"
  shows "recomputed x (widenWord y) (charsOf (widenWord y))"
proof (cases "tk_kids y")
  case None
  then show ?thesis
    using timingOf_fields [OF assms] by (simp add: widenWord_def charsOf_def recomputed_def)
next
  case (Some cs)
  then show ?thesis
    using recomputed_widenParent [OF assms, of cs] by (simp add: widenWord_def charsOf_def)
qed

lemma blocks_FromLines:
  assumes "map timingOf d1 = map timingOf d"
  shows "blocksRecomputed d (updateBlockTimingFromLines d1)"
  unfolding blocksRecomputed_def updateBlockTimingFromLines_def
  by (rule list_all2_map_timing [OF assms]) (simp add: recomputed_widenParent)

lemma blocks_FromWords:
  assumes "map timingOf d1 = map timingOf d"
  shows "blocksRecomputed d (updateParentTimingFromWords d1)"
  unfolding updateParentTimingFromWords_def
  by (rule blocks_FromLines) (simp add: assms o_def)

lemma blocks_FromChars:
  assumes "map timingOf d1 = map timingOf d"
  shows "blocksRecomputed d (updateParentTimingFromChars d1)"
  unfolding updateParentTimingFromChars_def
  by (rule blocks_FromWords) (simp add: assms o_def)

lemma lines_FromWords:
  assumes "map timingOf (allLines d1) = map timingOf (allLines d)"
  shows "linesRecomputed d (updateParentTimingFromWords d1)"
  unfolding linesRecomputed_def allLines_FromWords
  by (rule list_all2_map_timing [OF assms]) (rule recomputed_widenLine)

lemma lines_FromChars:
  assumes "map timingOf (allLines d1) = map timingOf (allLines d)"
  shows "linesRecomputed d (updateParentTimingFromChars d1)"
  unfolding linesRecomputed_def allLines_FromChars o_def
  by (rule list_all2_map_timing [OF assms], rule recomputed_widenLine) simp

lemma words_FromChars:
  assumes "map timingOf (allWords d1) = map timingOf (allWords d)"
  shows "wordsRecomputed d (updateParentTimingFromChars d1)"
  unfolding wordsRecomputed_def allWords_FromChars
  by (rule list_all2_map_timing [OF assms]) (rule recomputed_widenWord)


lemma recordStep_shape:
  "recordStep d ev = d
   \<or> (ev_mode ev = Blocks
       \<and> recordStep d ev =
           d[ev_index ev := setStamp (ev_type ev) (math_round (js_mul (ev_time ev) 1000)) (ev_voice ev)
                              (d ! ev_index ev)])
   \<or> (ev_mode ev = Lines
       \<and> recordStep d ev = updateBlockTimingFromLines
           (writeLine (ev_index ev)
              (setStamp (ev_type ev) (math_round (js_mul (ev_time ev) 1000)) (ev_voice ev)) d))
   \<or> (ev_mode ev = Words
       \<and> recordStep d ev = updateParentTimingFromWords
           (writeWord (ev_index ev)
              (setStamp (ev_type ev) (math_round (js_mul (ev_time ev) 1000)) (ev_voice ev)) d))
   \<or> (ev_mode ev = Chars
       \<and> recordStep d ev = updateParentTimingFromChars
           (writeChar (ev_index ev)
              (setStamp (ev_type ev) (math_round (js_mul (ev_time ev) 1000)) (ev_voice ev)) d))"
  by (cases "ev_mode ev")
     (simp_all add: recordStep_def recordTimestamp_def Let_def split: option.splits)

lemma recordStep_cases:
  fixes d :: document
  obtains (same) "recordStep d ev = d"
  | (blocks) ty t v where "ev_mode ev = Blocks"
      "recordStep d ev = d[ev_index ev := setStamp ty t v (d ! ev_index ev)]"
  | (lines) ty t v where "ev_mode ev = Lines"
      "recordStep d ev = updateBlockTimingFromLines (writeLine (ev_index ev) (setStamp ty t v) d)"
  | (words) ty t v where "ev_mode ev = Words"
      "recordStep d ev = updateParentTimingFromWords (writeWord (ev_index ev) (setStamp ty t v) d)"
  | (chars) ty t v where "ev_mode ev = Chars"
      "recordStep d ev = updateParentTimingFromChars (writeChar (ev_index ev) (setStamp ty t v) d)"
  using recordStep_shape [of d ev] by blast

lemma widened_of_recomputed_blocks:
  "blocksRecomputed d d' \<Longrightarrow> list_all2 widened d d'"
  unfolding blocksRecomputed_def
  by (erule list_all2_mono) (rule recomputed_widened)

lemma widened_of_recomputed_lines:
  "linesRecomputed d d' \<Longrightarrow> list_all2 widened (allLines d) (allLines d')"
  unfolding linesRecomputed_def
  by (erule list_all2_mono) (rule recomputed_widened)

lemma widened_of_recomputed_words:
  "wordsRecomputed d d' \<Longrightarrow> list_all2 widened (allWords d) (allWords d')"
  unfolding wordsRecomputed_def
  by (erule list_all2_mono) (rule recomputed_widened)

lemma widened_same: "list_all2 widened xs xs"
  by (simp add: list_all2_refl widened_refl)

lemma widened_list_trans:
  "list_all2 widened xs ys \<Longrightarrow> list_all2 widened ys zs \<Longrightarrow> list_all2 widened xs zs"
  using list_all2_trans [of widened widened widened xs ys zs] widened_trans by blast

lemma step_blocks:
  assumes "ev_mode ev \<noteq> Blocks"
  shows "list_all2 widened d (recordStep d ev)"
proof (cases rule: recordStep_cases [of d ev])
  case same
  then show ?thesis by (simp add: widened_same)
next
  case (blocks ty t v)
  then show ?thesis using assms by simp
next
  case (lines ty t v)
  then show ?thesis
    by (simp add: widened_of_recomputed_blocks blocks_FromLines timing_writeLine)
next
  case (words ty t v)
  then show ?thesis
    by (simp add: widened_of_recomputed_blocks blocks_FromWords timing_writeWord)
next
  case (chars ty t v)
  then show ?thesis
    by (simp add: widened_of_recomputed_blocks blocks_FromChars timing_writeChar)
qed

lemma step_lines:
  assumes "ev_mode ev = Words \<or> ev_mode ev = Chars"
  shows "list_all2 widened (allLines d) (allLines (recordStep d ev))"
proof (cases rule: recordStep_cases [of d ev])
  case same
  then show ?thesis by (simp add: widened_same)
next
  case (blocks ty t v)
  then show ?thesis using assms by simp
next
  case (lines ty t v)
  then show ?thesis using assms by simp
next
  case (words ty t v)
  then show ?thesis
    by (simp add: widened_of_recomputed_lines lines_FromWords lines_timing_writeWord)
next
  case (chars ty t v)
  then show ?thesis
    by (simp add: widened_of_recomputed_lines lines_FromChars lines_timing_writeChar)
qed

lemma step_words:
  assumes "ev_mode ev = Chars"
  shows "list_all2 widened (allWords d) (allWords (recordStep d ev))"
proof (cases rule: recordStep_cases [of d ev])
  case same
  then show ?thesis by (simp add: widened_same)
next
  case (chars ty t v)
  then show ?thesis
    by (simp add: widened_of_recomputed_words words_FromChars words_timing_writeChar)
qed (use assms in simp_all)

lemma recordAll_Cons: "recordAll d (ev # evs) = recordAll (recordStep d ev) evs"
  by (simp add: recordAll_def)

lemma all_blocks:
  "\<forall>ev\<in>set evs. ev_mode ev \<noteq> Blocks \<Longrightarrow> list_all2 widened d (recordAll d evs)"
proof (induction evs arbitrary: d)
  case Nil
  then show ?case by (simp add: recordAll_def widened_same)
next
  case (Cons ev evs)
  have "list_all2 widened d (recordStep d ev)" using Cons.prems by (simp add: step_blocks)
  moreover have "list_all2 widened (recordStep d ev) (recordAll (recordStep d ev) evs)"
    using Cons by simp
  ultimately show ?case unfolding recordAll_Cons by (rule widened_list_trans)
qed

lemma all_lines:
  "\<forall>ev\<in>set evs. ev_mode ev = Words \<or> ev_mode ev = Chars \<Longrightarrow>
     list_all2 widened (allLines d) (allLines (recordAll d evs))"
proof (induction evs arbitrary: d)
  case Nil
  then show ?case by (simp add: recordAll_def widened_same)
next
  case (Cons ev evs)
  have "list_all2 widened (allLines d) (allLines (recordStep d ev))"
    using Cons.prems by (simp add: step_lines)
  moreover have "list_all2 widened (allLines (recordStep d ev))
      (allLines (recordAll (recordStep d ev) evs))"
    using Cons by simp
  ultimately show ?case unfolding recordAll_Cons by (rule widened_list_trans)
qed

lemma all_words:
  "\<forall>ev\<in>set evs. ev_mode ev = Chars \<Longrightarrow>
     list_all2 widened (allWords d) (allWords (recordAll d evs))"
proof (induction evs arbitrary: d)
  case Nil
  then show ?case by (simp add: recordAll_def widened_same)
next
  case (Cons ev evs)
  have "list_all2 widened (allWords d) (allWords (recordStep d ev))"
    using Cons.prems by (simp add: step_words)
  moreover have "list_all2 widened (allWords (recordStep d ev))
      (allWords (recordAll (recordStep d ev) evs))"
    using Cons by simp
  ultimately show ?case unfolding recordAll_Cons by (rule widened_list_trans)
qed


lemma skeleton_setStamp [simp]:
  "skeletonChr (setStamp ty t v c) = skeletonChr c"
  "skeletonWord (setStamp ty t v w) = skeletonWord w"
  "skeletonLine (setStamp ty t v l) = skeletonLine l"
  "skeletonBlock (setStamp ty t v b) = skeletonBlock b"
  by (simp_all add: setStamp_def skeletonChr_def skeletonWord_def skeletonLine_def
      skeletonBlock_def split: stamp.splits)

lemma skeleton_widenParent [simp]:
  "skeletonWord (widenParent w cs) = skeletonWord w"
  "skeletonLine (widenParent l ws) = skeletonLine l"
  "skeletonBlock (widenParent b ls) = skeletonBlock b"
  by (simp_all add: skeletonWord_def skeletonLine_def skeletonBlock_def)

lemma skeleton_widenWord [simp]: "skeletonWord (widenWord w) = skeletonWord w"
  by (simp add: widenWord_def split: option.splits)

lemma skeleton_widenLine [simp]: "skeletonLine (widenLine l) = skeletonLine l"
  by (simp add: widenLine_def split: option.splits)

lemma skeleton_widenWordsOfLine [simp]: "skeletonLine (widenWordsOfLine l) = skeletonLine l"
  by (simp add: widenWordsOfLine_def skeletonLine_def o_def split: option.splits)

lemma skeleton_FromLines [simp]: "skeleton (updateBlockTimingFromLines d) = skeleton d"
  by (simp add: skeleton_def updateBlockTimingFromLines_def)

lemma skeleton_FromWords [simp]: "skeleton (updateParentTimingFromWords d) = skeleton d"
  by (simp add: updateParentTimingFromWords_def)
     (simp add: skeleton_def skeletonBlock_def o_def)

lemma skeleton_FromChars [simp]: "skeleton (updateParentTimingFromChars d) = skeleton d"
  by (simp add: updateParentTimingFromChars_def)
     (simp add: skeleton_def skeletonBlock_def o_def)

lemma skeleton_writeCharInWord [simp]:
  "skeletonWord (writeCharInWord (setStamp ty t v) k w) = skeletonWord w"
  by (simp add: writeCharInWord_def skeletonWord_def update_nth_map split: option.splits)

lemma skeleton_writeCharInLine [simp]:
  "skeletonLine (writeCharInLine (setStamp ty t v) k l) = skeletonLine l"
  by (simp add: writeCharInLine_def skeletonLine_def updateAt_map split: option.splits)

lemma skeleton_writeWordInLine [simp]:
  "skeletonLine (writeWordInLine (setStamp ty t v) k l) = skeletonLine l"
  by (simp add: writeWordInLine_def skeletonLine_def update_nth_map split: option.splits)

lemma skeleton_writeLine [simp]: "skeleton (writeLine i (setStamp ty t v) d) = skeleton d"
  unfolding skeleton_def writeLine_def
  by (rule updateAt_map) (simp add: skeletonBlock_def update_nth_map)

lemma skeleton_writeWord [simp]: "skeleton (writeWord i (setStamp ty t v) d) = skeleton d"
  unfolding skeleton_def writeWord_def
  by (rule updateAt_map) (simp add: skeletonBlock_def updateAt_map)

lemma skeleton_writeChar [simp]: "skeleton (writeChar i (setStamp ty t v) d) = skeleton d"
  unfolding skeleton_def writeChar_def
  by (rule updateAt_map) (simp add: skeletonBlock_def updateAt_map)

lemma skeleton_recordStep: "skeleton (recordStep d ev) = skeleton d"
proof (cases rule: recordStep_cases [of d ev])
  case (blocks ty t v)
  then show ?thesis by (simp add: skeleton_def update_nth_map)
qed simp_all

lemma skeleton_recordAll: "skeleton (recordAll d evs) = skeleton d"
  by (induction evs arbitrary: d) (simp_all add: recordAll_def skeleton_recordStep)

lemma record_out_of_range:
  assumes "length (getTokensByMode st) \<le> activeTokenIndex st"
  shows "recordTimestamp st t ty = Inl TypeError"
  using assms by (simp add: recordTimestamp_def tokenAt_def isSpaceToken_def Let_def)

lemma deletes_untimed_words:
  assumes "bi < length d" "li < length (tk_kids (d ! bi))"
    "tk_kids (tk_kids (d ! bi) ! li) = Some ws" "filter isTimed ws = []"
  shows "tk_kids (tk_kids (cleanupTimingData d ! bi) ! li) = None"
proof -
  have k: "tk_kids (cleanupLines (d ! bi) ! li) = Some ws"
    using assms by (simp add: kids_cleanupLines_nth)
  show ?thesis
    using assms(1,2,4) words_result [OF k] by (simp add: nth_cleanup line_at)
qed


text \<open>
  Claim C1 as stated fails if a timed child is one whose bounds are not the sentinel
  0--0: after the start of the first word of \<open>untimedDoc\<close> is recorded, that word is
  1000--0, which is not the sentinel, yet the unset start of its line stays 0. The
  propagation counts a child only when both its start and its end are above 0.
\<close>

theorem propagation_start_only_counterexample:
  "map timingOf (allWords (recordStep untimedDoc startOnlyEvent)) = [(1000, 0, 1), (0, 0, 0)]
   \<and> isTimed (hd (allWords (recordStep untimedDoc startOnlyEvent)))
   \<and> map timingOf (allLines (recordStep untimedDoc startOnlyEvent)) = [(0, 0, 0)]"
  by code_simp

text \<open>
  Claim C1, amended: each of the three propagation functions recomputes every ancestor
  it visits from those of the ancestor's children that have both start and end above 0
  (the minimum of their starts and the maximum of their ends, written only where the
  ancestor's bound is unset or would be widened, so an unset bound takes exactly the
  minimum or maximum); such a recomputation only widens; and over every sequence of
  record events below the ancestor's own level no bound that is set moves inwards: not
  for a block under events in lines, words or chars mode, not for a line under events in
  words or chars mode, not for a word under events in chars mode.
\<close>

theorem bubble_up_only_widens:
  fixes d :: document and old new :: "'p token" and cs :: "'c token list"
  shows "blocksRecomputed d (updateBlockTimingFromLines d)
     \<and> blocksRecomputed d (updateParentTimingFromWords d)
     \<and> linesRecomputed d (updateParentTimingFromWords d)
     \<and> blocksRecomputed d (updateParentTimingFromChars d)
     \<and> linesRecomputed d (updateParentTimingFromChars d)
     \<and> wordsRecomputed d (updateParentTimingFromChars d)
     \<and> (recomputed old new cs \<longrightarrow> widened old new)
     \<and> ((\<forall>ev\<in>set evs. ev_mode ev \<noteq> Blocks) \<longrightarrow> list_all2 widened d (recordAll d evs))
     \<and> ((\<forall>ev\<in>set evs. ev_mode ev = Words \<or> ev_mode ev = Chars) \<longrightarrow>
           list_all2 widened (allLines d) (allLines (recordAll d evs)))
     \<and> ((\<forall>ev\<in>set evs. ev_mode ev = Chars) \<longrightarrow>
           list_all2 widened (allWords d) (allWords (recordAll d evs)))"
  using blocks_FromLines [of d d] blocks_FromWords [of d d] lines_FromWords [of d d]
    blocks_FromChars [of d d] lines_FromChars [of d d] words_FromChars [of d d]
    recomputed_widened [of old new cs] all_blocks [of evs d] all_lines [of evs d]
    all_words [of evs d]
  by blast

lemma recordAll_wordEvents: "recordAll lineOnlyDoc wordEvents =
   [mkBlock ''la na'' 1000 3500 1
        [mkLine ''la na'' 1000 3500 1
           (Some [mkWord ''la'' 1000 3500 1 (Some [mkChr ''l'' 0 0 0, mkChr ''a'' 0 0 0]),
                  mkWord ''na'' 0 0 0 None])]]"
  by code_simp

theorem bubble_up_only_widens_witness:
  "map ev_mode wordEvents = [Words, Words]
   \<and> list_all2 widened lineOnlyDoc (recordAll lineOnlyDoc wordEvents)
   \<and> list_all2 widened (allLines lineOnlyDoc) (allLines (recordAll lineOnlyDoc wordEvents))
   \<and> map timingOf lineOnlyDoc = [(2000, 3000, 1)]
   \<and> map timingOf (recordAll lineOnlyDoc wordEvents) = [(1000, 3500, 1)]"
proof -
  have m: "map ev_mode wordEvents = [Words, Words]" by (simp add: wordEvents_def)
  have h1: "\<forall>ev\<in>set wordEvents. ev_mode ev \<noteq> Blocks"
    and h2: "\<forall>ev\<in>set wordEvents. ev_mode ev = Words \<or> ev_mode ev = Chars"
    by (simp_all add: wordEvents_def)
  have v: "map timingOf lineOnlyDoc = [(2000, 3000, 1)]"
    "map timingOf (recordAll lineOnlyDoc wordEvents) = [(1000, 3500, 1)]"
    by code_simp+
  show ?thesis
    using bubble_up_only_widens [of lineOnlyDoc _ _ _ wordEvents] m h1 h2 v by blast
qed

text \<open>
  Claim C8: recording with the cursor out of range is meant to be ignored (each branch
  of the source guards its write with an index test), but the log line before the
  branches reads the text of the \<^verbatim>\<open>undefined\<close> token: the call throws. This happens on
  an empty token list and on an index past the end of a list.
\<close>

theorem record_out_of_range_throws:
  "recordTimestamp \<lparr>karaokeData = [], recordingMode = Chars, activeTokenIndex = 0,
      currentVoice = 1\<rparr> (3 / 2) RecStart = Inl TypeError
   \<and> recordTimestamp \<lparr>karaokeData = lineOnlyDoc, recordingMode = Blocks, activeTokenIndex = 1,
      currentVoice = 1\<rparr> (3 / 2) RecEnd = Inl TypeError"
  by code_simp

lemma deletes_untimed_chars:
  assumes "bi < length d" "li < length (tk_kids (d ! bi))"
    "tk_kids (tk_kids (d ! bi) ! li) = Some ws"
    "tk_kids (tk_kids (cleanupTimingData d ! bi) ! li) = Some ws'"
    "wi < length ws" "tk_kids (ws ! wi) = Some cs" "filter isTimed cs = []"
  shows "length ws' = length ws \<and> tk_kids (ws' ! wi) = None"
proof -
  let ?l = "cleanupLines (d ! bi) ! li"
  let ?ws1 = "if partlyTimed ws then interpolate (tk_start ?l) (tk_end ?l) (tk_voice ?l) ws else ws"
  have k: "tk_kids ?l = Some ws"
    using assms by (simp add: kids_cleanupLines_nth)
  have at: "tk_kids (cleanupTimingData d ! bi) ! li = clearLineText (cleanupWords ?l)"
    using assms by (simp add: nth_cleanup line_at)
  have ne: "filter isTimed ws \<noteq> []"
    using assms(4) words_result [OF k] unfolding at by (auto split: if_splits)
  have ws': "ws' = map (clearWordText \<circ> cleanupChars (tk_voice ?l)) ?ws1"
    using assms(4) words_result [OF k] ne unfolding at by simp
  have k1: "tk_kids (?ws1 ! wi) = Some cs"
    using assms(5,6) by (simp add: kids_interpolate_nth)
  have "tk_kids (ws' ! wi) = tk_kids (clearWordText (cleanupChars (tk_voice ?l) (?ws1 ! wi)))"
    using assms(5) by (simp add: ws')
  also have "\<dots> = None" using chars_result [OF k1] assms(7) by simp
  finally show ?thesis by (simp add: ws')
qed

text \<open>
  Claim C9: in the cleanup pass a \<^verbatim>\<open>words\<close> array none of whose members is timed is
  deleted from its line, and a \<^verbatim>\<open>chars\<close> array none of whose members is timed is
  deleted from its word (in every \<^verbatim>\<open>words\<close> array that is kept); recording, with its
  propagation, never changes the nodes of the tree, whatever the events are.
\<close>

theorem cleanup_deletes_untimed_arrays:
  fixes d :: document
  assumes "bi < length d" "li < length (tk_kids (d ! bi))"
  shows "(\<forall>ws. tk_kids (tk_kids (d ! bi) ! li) = Some ws \<and> filter isTimed ws = [] \<longrightarrow>
            tk_kids (tk_kids (cleanupTimingData d ! bi) ! li) = None)
     \<and> (\<forall>ws ws' wi cs.
            tk_kids (tk_kids (d ! bi) ! li) = Some ws
            \<and> tk_kids (tk_kids (cleanupTimingData d ! bi) ! li) = Some ws'
            \<and> wi < length ws \<and> tk_kids (ws ! wi) = Some cs \<and> filter isTimed cs = [] \<longrightarrow>
            length ws' = length ws \<and> tk_kids (ws' ! wi) = None)
     \<and> skeleton (recordAll d evs) = skeleton d"
  using deletes_untimed_words [OF assms] deletes_untimed_chars [OF assms]
    skeleton_recordAll [of d evs]
  by blast

theorem cleanup_deletes_untimed_arrays_witness:
  "0 < length lineOnlyDoc \<and> 0 < length (tk_kids (lineOnlyDoc ! 0))
   \<and> filter isTimed (the (tk_kids (tk_kids (lineOnlyDoc ! 0) ! 0))) = []
   \<and> tk_kids (tk_kids (cleanupTimingData lineOnlyDoc ! 0) ! 0) = None
   \<and> skeleton (recordAll lineOnlyDoc wordEvents) = skeleton lineOnlyDoc"
proof -
  have h: "0 < length lineOnlyDoc" "0 < length (tk_kids (lineOnlyDoc ! 0))"
    by (simp_all add: lineOnlyDoc_def mkBlock_def)
  have w: "tk_kids (tk_kids (lineOnlyDoc ! 0) ! 0)
      = Some [mkWord ''la'' 0 0 0 (Some [mkChr ''l'' 0 0 0, mkChr ''a'' 0 0 0]),
                  mkWord ''na'' 0 0 0 None]"
    by (simp add: lineOnlyDoc_def mkBlock_def mkLine_def)
  have f: "filter isTimed [mkWord ''la'' 0 0 0 (Some [mkChr ''l'' 0 0 0, mkChr ''a'' 0 0 0]),
                  mkWord ''na'' 0 0 0 None] = []"
    by (simp add: isTimed_def mkWord_def)
  show ?thesis
    using cleanup_deletes_untimed_arrays [OF h, of wordEvents] h w f by simp
qed


section \<open>Properties of the unlock update\<close>

lemma every_pure: "every (\<lambda>x. Inr (P x)) xs = Inr (list_all P xs)"
  by (induction xs) simp_all

lemma linesCompleted:
  "isModeCompleted d Lines = Inr (list_all isRecorded (allLines d))"
  by (induction d) (simp_all add: isModeCompleted_def allLines_def every_pure)

lemma every_cong_Inr:
  assumes "\<And>x. x \<in> set xs \<Longrightarrow> p x = Inr (P x)"
  shows "every p xs = Inr (list_all P xs)"
  using assms by (induction xs) simp_all

lemma wordsCompleted_total:
  assumes "list_all (\<lambda>l. tk_kids l \<noteq> None) (allLines d)"
  shows "isModeCompleted d Words = Inr (list_all isRecorded (allWords d))"
proof -
  have line: "wordsCompleted l = Inr (list_all isRecorded (wordsOf l))" if "tk_kids l \<noteq> None" for l
    using that by (auto simp: wordsCompleted_def wordsOf_def every_pure)
  have block: "every wordsCompleted (tk_kids b)
                 = Inr (list_all isRecorded (concat (map wordsOf (tk_kids b))))"
    if "b \<in> set d" for b
  proof -
    have "every wordsCompleted (tk_kids b) = Inr (list_all (\<lambda>l. list_all isRecorded (wordsOf l)) (tk_kids b))"
      using assms that
      by (intro every_cong_Inr line) (auto simp: allLines_def list_all_iff)
    then show ?thesis by (simp add: list_all_iff)
  qed
  have "isModeCompleted d Words =
      Inr (list_all (\<lambda>b. list_all isRecorded (concat (map wordsOf (tk_kids b)))) d)"
    unfolding isModeCompleted_def by (simp add: every_cong_Inr block)
  then show ?thesis by (simp add: allWords_def list_all_iff)
qed

lemma error_is_TypeError: "(e :: error) = TypeError"
  by (cases e) simp

lemma completionLoop_result:
  "completionLoop d [Lines, Words] [Blocks, Lines] =
     (if list_all isRecorded (allLines d) then
        (case isModeCompleted d Words of
           Inl e \<Rightarrow> Inl e
         | Inr done \<Rightarrow> Inr (if done then [Blocks, Lines, Words, Chars] else [Blocks, Lines, Words]))
      else Inr [Blocks, Lines])"
  by (simp add: linesCompleted pushIfMissing_def split: sum.splits)

text \<open>
  Claim C4 as stated fails: in chars mode on \<open>lineOnlyDoc\<close> the words are not
  completed and words is not the active mode, yet chars is unlocked, because the update
  always unlocks the active mode.
\<close>

theorem unlock_active_mode_counterexample:
  "updateUnlockedModes charsModeSession = Inr [Blocks, Lines, Words, Chars]
   \<and> isModeCompleted (karaokeData charsModeSession) Words = Inr False
   \<and> recordingMode charsModeSession = Chars"
  by code_simp

text \<open>
  Claim C4, amended: a mode is completed when each of its tokens has start and end
  above 0. After the update, blocks and lines are unlocked; words is unlocked exactly
  when lines is completed, or lines is the active mode and its active token is recorded,
  or words is the active mode; chars is unlocked exactly when lines and words are both
  completed, or words is the active mode and its active token is recorded, or chars is
  the active mode. The update returns a list unless lines is completed and the
  completion test of words throws, which it cannot when every line has a \<^verbatim>\<open>words\<close>
  array.
\<close>

theorem unlock_rule:
  fixes st :: session
  defines "d \<equiv> karaokeData st"
  shows "isModeCompleted d Lines = Inr (list_all isRecorded (allLines d))
     \<and> (list_all (\<lambda>l. tk_kids l \<noteq> None) (allLines d) \<longrightarrow>
          isModeCompleted d Words = Inr (list_all isRecorded (allWords d)))
     \<and> (updateUnlockedModes st = Inl TypeError \<longleftrightarrow>
          list_all isRecorded (allLines d) \<and> isModeCompleted d Words = Inl TypeError)
     \<and> (\<forall>unlocked. updateUnlockedModes st = Inr unlocked \<longrightarrow>
          Blocks \<in> set unlocked \<and> Lines \<in> set unlocked
          \<and> (Words \<in> set unlocked \<longleftrightarrow>
                list_all isRecorded (allLines d)
                \<or> (recordingMode st = Lines \<and> isCurrentTokenRecorded st)
                \<or> recordingMode st = Words)
          \<and> (Chars \<in> set unlocked \<longleftrightarrow>
                (list_all isRecorded (allLines d) \<and> isModeCompleted d Words = Inr True)
                \<or> (recordingMode st = Words \<and> isCurrentTokenRecorded st)
                \<or> recordingMode st = Chars))"
proof -
  have a: "isModeCompleted d Lines = Inr (list_all isRecorded (allLines d))"
    by (rule linesCompleted)
  have b: "list_all (\<lambda>l. tk_kids l \<noteq> None) (allLines d) \<longrightarrow>
          isModeCompleted d Words = Inr (list_all isRecorded (allWords d))"
    using wordsCompleted_total by blast
  have c: "updateUnlockedModes st = Inl TypeError \<longleftrightarrow>
          list_all isRecorded (allLines d) \<and> isModeCompleted d Words = Inl TypeError"
    unfolding updateUnlockedModes_def d_def [symmetric] completionLoop_result
    by (auto simp: Let_def error_is_TypeError split: sum.splits option.splits)
  have e: "Blocks \<in> set unlocked \<and> Lines \<in> set unlocked
          \<and> (Words \<in> set unlocked \<longleftrightarrow>
                list_all isRecorded (allLines d)
                \<or> (recordingMode st = Lines \<and> isCurrentTokenRecorded st)
                \<or> recordingMode st = Words)
          \<and> (Chars \<in> set unlocked \<longleftrightarrow>
                (list_all isRecorded (allLines d) \<and> isModeCompleted d Words = Inr True)
                \<or> (recordingMode st = Words \<and> isCurrentTokenRecorded st)
                \<or> recordingMode st = Chars)"
    if "updateUnlockedModes st = Inr unlocked" for unlocked
    using that
    unfolding updateUnlockedModes_def d_def [symmetric] completionLoop_result
    by (cases "recordingMode st")
       (auto simp: Let_def pushIfMissing_def split: sum.splits if_splits)
  show ?thesis using a b c e by blast
qed


theorem unlock_rule_witness:
  "updateUnlockedModes charsModeSession = Inr [Blocks, Lines, Words, Chars]
   \<and> Chars \<in> set [Blocks, Lines, Words, Chars]
   \<and> recordingMode charsModeSession = Chars
   \<and> list_all isRecorded (allLines (karaokeData charsModeSession))"
proof -
  have u: "updateUnlockedModes charsModeSession = Inr [Blocks, Lines, Words, Chars]"
    by code_simp
  have m: "recordingMode charsModeSession = Chars" by (simp add: charsModeSession_def)
  have "isModeCompleted (karaokeData charsModeSession) Lines = Inr True" by code_simp
  then have l: "list_all isRecorded (allLines (karaokeData charsModeSession))"
    using unlock_rule [of charsModeSession] by simp
  show ?thesis using unlock_rule [of charsModeSession] u m l by simp
qed

section \<open>Properties of the seek lookup\<close>

lemma chrono_Cons:
  assumes "chronological (x # rest)"
  shows "numericBounds x" "startOf x \<le> endOf x" "chronological rest"
    "rest \<noteq> [] \<Longrightarrow> endOf x \<le> startOf (hd rest)"
  using assms by (cases rest; simp)+

lemma chrono_numeric:
  "chronological xs \<Longrightarrow> k < length xs \<Longrightarrow> numericBounds (xs ! k) \<and> startOf (xs ! k) \<le> endOf (xs ! k)"
proof (induction xs arbitrary: k)
  case Nil
  then show ?case by simp
next
  case (Cons x rest)
  then show ?case using chrono_Cons [OF Cons.prems(1)] by (cases k) auto
qed

lemma chrono_after:
  "chronological (x # rest) \<Longrightarrow> k < length rest \<Longrightarrow> endOf x \<le> startOf (rest ! k)"
proof (induction rest arbitrary: x k)
  case Nil
  then show ?case by simp
next
  case (Cons y rest)
  show ?case
  proof (cases k)
    case 0
    then show ?thesis using Cons.prems by simp
  next
    case (Suc k')
    have "endOf y \<le> startOf (rest ! k')" using Cons Suc by simp
    moreover have "endOf x \<le> startOf y" using Cons.prems by simp
    moreover have "startOf y \<le> endOf y"
      using chrono_Cons(2) [OF chrono_Cons(3) [OF Cons.prems(1)]] .
    ultimately show ?thesis using Suc by simp
  qed
qed

lemma seekScan_step:
  assumes "numericBounds x" "rest \<noteq> [] \<Longrightarrow> numericBounds (hd rest)"
  shows "seekScan t i (x # rest) =
     (if contains t x then Some i
      else if rest \<noteq> [] \<and> of_int (endOf x) < t \<and> t < of_int (startOf (hd rest)) then Some (i + 1)
      else seekScan t (i + 1) rest)"
  using assms
  by (auto simp: contains_def numericBounds_def startOf_def endOf_def split: option.splits)

lemma chrono_step:
  assumes "chronological (x # rest)"
  shows "seekScan t i (x # rest) =
     (if contains t x then Some i
      else if rest \<noteq> [] \<and> of_int (endOf x) < t \<and> t < of_int (startOf (hd rest)) then Some (i + 1)
      else seekScan t (i + 1) rest)"
proof (rule seekScan_step)
  show "numericBounds x" using chrono_Cons [OF assms] by simp
  show "numericBounds (hd rest)" if "rest \<noteq> []"
    using chrono_numeric [of rest 0] chrono_Cons(3) [OF assms] that by (simp add: hd_conv_nth)
qed

lemma scan_first_match:
  assumes "chronological xs" "k < length xs" "contains t (xs ! k)"
    "\<forall>j<k. \<not> contains t (xs ! j)"
  shows "seekScan t i xs = Some (i + k)"
  using assms
proof (induction xs arbitrary: i k)
  case Nil
  then show ?case by simp
next
  case (Cons x rest)
  show ?case
  proof (cases k)
    case 0
    then show ?thesis
      unfolding chrono_step [OF Cons.prems(1)] using Cons.prems by simp
  next
    case (Suc k')
    have nx: "\<not> contains t x" using Cons.prems(4) Suc by auto
    have k': "k' < length rest" "contains t (rest ! k')" "\<forall>j<k'. \<not> contains t (rest ! j)"
      using Cons.prems Suc by auto
    have ne: "rest \<noteq> []" using k' by auto
    have "of_int (startOf (hd rest)) \<le> t"
    proof -
      have "startOf (hd rest) \<le> startOf (rest ! k')"
      proof (cases k')
        case 0
        then show ?thesis using ne by (simp add: hd_conv_nth)
      next
        case (Suc m)
        obtain y r where r: "rest = y # r" using ne by (cases rest) auto
        have cy: "chronological (y # r)" using chrono_Cons(3) [OF Cons.prems(1)] r by simp
        have "endOf y \<le> startOf (r ! m)" using chrono_after [OF cy, of m] k' Suc r by simp
        moreover have "startOf y \<le> endOf y" using chrono_Cons(2) [OF cy] .
        ultimately show ?thesis using r Suc by simp
      qed
      then have "(of_int (startOf (hd rest)) :: rat) \<le> of_int (startOf (rest ! k'))" by simp
      then show ?thesis using k'(2) by (simp add: contains_def)
    qed
    then have nogap: "\<not> (t < of_int (startOf (hd rest)))" by simp
    have "seekScan t (i + 1) rest = Some (i + 1 + k')"
      using Cons.IH [OF chrono_Cons(3) [OF Cons.prems(1)] k'] .
    then show ?thesis
      unfolding chrono_step [OF Cons.prems(1)] using nx nogap Suc by simp
  qed
qed

lemma scan_gap:
  assumes "chronological xs" "Suc k < length xs"
    "of_int (endOf (xs ! k)) < t" "t < of_int (startOf (xs ! Suc k))"
  shows "seekScan t i xs = Some (i + Suc k)"
  using assms
proof (induction xs arbitrary: i k)
  case Nil
  then show ?case by simp
next
  case (Cons x rest)
  have ne: "rest \<noteq> []" using Cons.prems(2) by auto
  have cr: "chronological rest" using chrono_Cons(3) [OF Cons.prems(1)] .
  have after: "endOf x \<le> startOf (rest ! j)" if "j < length rest" for j
    using chrono_after [OF Cons.prems(1) that] .
  show ?case
  proof (cases k)
    case 0
    have "\<not> contains t x" using Cons.prems(3) 0 by (simp add: contains_def)
    then show ?thesis
      unfolding chrono_step [OF Cons.prems(1)] using Cons.prems 0 ne by (simp add: hd_conv_nth)
  next
    case (Suc k')
    have k': "Suc k' < length rest" "of_int (endOf (rest ! k')) < t"
      "t < of_int (startOf (rest ! Suc k'))"
      using Cons.prems Suc by auto
    have "endOf x \<le> startOf (rest ! k')" using after [of k'] k' by simp
    moreover have "startOf (rest ! k') \<le> endOf (rest ! k')"
      using chrono_numeric [OF cr, of k'] k' by simp
    ultimately have "(of_int (endOf x) :: rat) \<le> of_int (endOf (rest ! k'))" by simp
    then have ex: "of_int (endOf x) < t" using k' by simp
    have sx: "startOf x \<le> endOf x" using chrono_Cons(2) [OF Cons.prems(1)] .
    have "endOf x \<le> startOf (hd rest)" using chrono_Cons(4) [OF Cons.prems(1) ne] .
    moreover have "startOf (hd rest) \<le> endOf (rest ! k')"
    proof (cases k')
      case 0
      then show ?thesis using chrono_numeric [OF cr, of 0] ne by (simp add: hd_conv_nth)
    next
      case (Suc m)
      obtain y r where r: "rest = y # r" using ne by (cases rest) auto
      have cy: "chronological (y # r)" using cr r by simp
      have "endOf y \<le> startOf (r ! m)" using chrono_after [OF cy, of m] k' Suc r by simp
      moreover have "startOf y \<le> endOf y" using chrono_Cons(2) [OF cy] .
      moreover have "startOf (rest ! k') \<le> endOf (rest ! k')"
        using chrono_numeric [OF cr, of k'] k' by simp
      ultimately show ?thesis using r Suc by simp
    qed
    ultimately have "(of_int (startOf (hd rest)) :: rat) \<le> of_int (endOf (rest ! k'))" by simp
    then have nogap: "\<not> (t < of_int (startOf (hd rest)))" using k' by simp
    have nx: "\<not> contains t x" using ex by (simp add: contains_def)
    have "seekScan t (i + 1) rest = Some (i + 1 + Suc k')"
      using Cons.IH [OF cr k'] .
    then show ?thesis
      unfolding chrono_step [OF Cons.prems(1)] using nx nogap Suc by simp
  qed
qed

lemma scan_none:
  assumes "chronological xs" "\<forall>j<length xs. \<not> contains t (xs ! j)"
    "\<forall>j. Suc j < length xs \<longrightarrow> \<not> (of_int (endOf (xs ! j)) < t \<and> t < of_int (startOf (xs ! Suc j)))"
  shows "seekScan t i xs = None"
  using assms
proof (induction xs arbitrary: i)
  case Nil
  then show ?case by simp
next
  case (Cons x rest)
  have nx: "\<not> contains t x" using Cons.prems(2) by auto
  have ng: "\<not> (rest \<noteq> [] \<and> of_int (endOf x) < t \<and> t < of_int (startOf (hd rest)))"
    using Cons.prems(3) [rule_format, of 0] by (auto simp: hd_conv_nth)
  have "seekScan t (i + 1) rest = None"
  proof (rule Cons.IH)
    show "chronological rest" using chrono_Cons(3) [OF Cons.prems(1)] .
    show "\<forall>j<length rest. \<not> contains t (rest ! j)" using Cons.prems(2) by auto
    show "\<forall>j. Suc j < length rest \<longrightarrow>
        \<not> (of_int (endOf (rest ! j)) < t \<and> t < of_int (startOf (rest ! Suc j)))"
      using Cons.prems(3) by auto
  qed
  then show ?case
    unfolding chrono_step [OF Cons.prems(1)] using nx ng by simp
qed


lemma seekTarget_chrono:
  assumes "chronological xs" "xs \<noteq> []"
  shows "seekTarget t xs =
     (case seekScan t 0 xs of
        Some i \<Rightarrow> Some i
      | None \<Rightarrow> if of_int (endOf (last xs)) < t then Some (length xs - 1)
                else if t < of_int (startOf (hd xs)) then Some 0 else None)"
proof -
  have "numericBounds (last xs)"
    using chrono_numeric [OF assms(1), of "length xs - 1"] assms(2) by (simp add: last_conv_nth)
  moreover have "numericBounds (hd xs)"
    using chrono_numeric [OF assms(1), of 0] assms(2) by (simp add: hd_conv_nth)
  ultimately show ?thesis
    using assms(2)
    by (auto simp: seekTarget_def numericBounds_def startOf_def endOf_def split: option.splits)
qed

lemma chrono_ordered:
  "chronological xs \<Longrightarrow> i < j \<Longrightarrow> j < length xs \<Longrightarrow> endOf (xs ! i) \<le> startOf (xs ! j)"
proof (induction xs arbitrary: i j)
  case Nil
  then show ?case by simp
next
  case (Cons x rest)
  obtain j' where j: "j = Suc j'" using Cons.prems(2) by (cases j) auto
  show ?case
  proof (cases i)
    case 0
    then show ?thesis using chrono_after [OF Cons.prems(1), of j'] Cons.prems j by simp
  next
    case (Suc i')
    then show ?thesis
      using Cons.IH [OF chrono_Cons(3) [OF Cons.prems(1)], of i' j'] Cons.prems j by simp
  qed
qed

text \<open>
  Claim C5: a seek to a time before the first token is meant to select the first token
  (the source says so above its last test), but the test before it, for a time past
  the last token, compares with the end 0 of a token that is not recorded yet. With
  the lines 100--200, 300--400 recorded and two lines still at 0--0, a seek to 62.5 ms
  selects the last line, index 3, instead of the first; with the tokens 100--200 and
  0--0, a seek to 50 ms selects index 1.
\<close>

theorem seek_before_first_selects_last:
  "map (\<lambda>x. (v_start x, v_end x)) (getTokensByMode partlyRecordedSession)
     = [(Some 100, Some 200), (Some 300, Some 400), (Some 0, Some 0), (Some 0, Some 0)]
   \<and> js_mul (1 / 16) 1000 = 125 / 2
   \<and> seekTarget (125 / 2) (getTokensByMode partlyRecordedSession) = Some 3
   \<and> handleSeek partlyRecordedSession (1 / 16) = 3
   \<and> seekTarget 50 [timedView 100 200, timedView 0 0] = Some 1"
  by code_simp

text \<open>
  The slip needs a token that ends before an earlier one starts. On a non-empty
  chronological list (numeric bounds, every \<open>start \<le> end\<close>, every end no later than
  the next start) the lookup selects the first token in order with
  \<open>start \<le> t \<le> end\<close>; if \<open>t\<close> lies in the gap between two consecutive tokens, the
  following one; if \<open>t\<close> is before the first token's start, the first token; if \<open>t\<close>
  is past the last token's end, the last token.
\<close>

lemma seekTarget_chronological_cases:
  assumes "chronological tokens" "tokens \<noteq> []"
  shows "(\<forall>k<length tokens. contains t (tokens ! k) \<and> (\<forall>j<k. \<not> contains t (tokens ! j)) \<longrightarrow>
            seekTarget t tokens = Some k)
     \<and> (\<forall>k. Suc k < length tokens \<and> of_int (endOf (tokens ! k)) < t
              \<and> t < of_int (startOf (tokens ! Suc k)) \<longrightarrow>
            seekTarget t tokens = Some (Suc k))
     \<and> (t < of_int (startOf (hd tokens)) \<longrightarrow> seekTarget t tokens = Some 0)
     \<and> (of_int (endOf (last tokens)) < t \<longrightarrow> seekTarget t tokens = Some (length tokens - 1))"
proof -
  note st = seekTarget_chrono [OF assms, of t]
  let ?n = "length tokens"
  have n: "0 < ?n" using assms(2) by simp
  have hd: "hd tokens = tokens ! 0" and last: "last tokens = tokens ! (?n - 1)"
    using assms(2) by (simp_all add: hd_conv_nth last_conv_nth)
  have bounds: "startOf (tokens ! j) \<le> endOf (tokens ! j)" if "j < ?n" for j
    using chrono_numeric [OF assms(1) that] by simp
  have lo: "startOf (tokens ! 0) \<le> startOf (tokens ! j)" if "j < ?n" for j
  proof (cases j)
    case 0
    then show ?thesis by simp
  next
    case (Suc m)
    then show ?thesis
      using chrono_ordered [OF assms(1), of 0 j] bounds [of 0] that n by simp
  qed
  have hi: "endOf (tokens ! j) \<le> endOf (tokens ! (?n - 1))" if "j < ?n" for j
  proof (cases "j = ?n - 1")
    case True
    then show ?thesis by simp
  next
    case False
    then have "j < ?n - 1" using that by simp
    then show ?thesis
      using chrono_ordered [OF assms(1), of j "?n - 1"] bounds [of "?n - 1"] n by simp
  qed
  have first: "seekTarget t tokens = Some k"
    if "k < ?n" "contains t (tokens ! k)" "\<forall>j<k. \<not> contains t (tokens ! j)" for k
    using scan_first_match [OF assms(1) that, of 0] st by simp
  have gap: "seekTarget t tokens = Some (Suc k)"
    if "Suc k < ?n" "of_int (endOf (tokens ! k)) < t" "t < of_int (startOf (tokens ! Suc k))" for k
    using scan_gap [OF assms(1) that, of 0] st by simp
  have before: "seekTarget t tokens = Some 0" if t: "t < of_int (startOf (hd tokens))"
  proof -
    have below: "t < of_int (startOf (tokens ! j))" "t < of_int (endOf (tokens ! j))"
      if "j < ?n" for j
    proof -
      have "(of_int (startOf (tokens ! 0)) :: rat) \<le> of_int (startOf (tokens ! j))"
        using lo [OF that] by simp
      then show "t < of_int (startOf (tokens ! j))" using t hd by simp
      moreover have "(of_int (startOf (tokens ! j)) :: rat) \<le> of_int (endOf (tokens ! j))"
        using bounds [OF that] by simp
      ultimately show "t < of_int (endOf (tokens ! j))" by simp
    qed
    have "seekScan t 0 tokens = None"
    proof (rule scan_none [OF assms(1)])
      show "\<forall>j<?n. \<not> contains t (tokens ! j)"
      proof (intro allI impI)
        fix j assume "j < ?n"
        then have "t < of_int (startOf (tokens ! j))" by (rule below(1))
        then show "\<not> contains t (tokens ! j)" by (simp add: contains_def)
      qed
      show "\<forall>j. Suc j < ?n \<longrightarrow>
          \<not> (of_int (endOf (tokens ! j)) < t \<and> t < of_int (startOf (tokens ! Suc j)))"
        using below(2) by (metis Suc_lessD less_imp_not_less)
    qed
    moreover have "\<not> of_int (endOf (last tokens)) < t"
      using below(2) [of "?n - 1"] n last by simp
    ultimately show ?thesis using st t by simp
  qed
  have after: "seekTarget t tokens = Some (?n - 1)" if t: "of_int (endOf (last tokens)) < t"
  proof -
    have above: "of_int (endOf (tokens ! j)) < t" "of_int (startOf (tokens ! j)) < t"
      if "j < ?n" for j
    proof -
      have "(of_int (endOf (tokens ! j)) :: rat) \<le> of_int (endOf (tokens ! (?n - 1)))"
        using hi [OF that] by simp
      then show "of_int (endOf (tokens ! j)) < t" using t last by simp
      moreover have "(of_int (startOf (tokens ! j)) :: rat) \<le> of_int (endOf (tokens ! j))"
        using bounds [OF that] by simp
      ultimately show "of_int (startOf (tokens ! j)) < t" by simp
    qed
    have "seekScan t 0 tokens = None"
    proof (rule scan_none [OF assms(1)])
      show "\<forall>j<?n. \<not> contains t (tokens ! j)"
      proof (intro allI impI)
        fix j assume "j < ?n"
        then have "of_int (endOf (tokens ! j)) < t" by (rule above(1))
        then show "\<not> contains t (tokens ! j)" by (simp add: contains_def)
      qed
      show "\<forall>j. Suc j < ?n \<longrightarrow>
          \<not> (of_int (endOf (tokens ! j)) < t \<and> t < of_int (startOf (tokens ! Suc j)))"
        using above(2) by (metis less_imp_not_less)
    qed
    then show ?thesis using st t by simp
  qed
  show ?thesis using first gap before after by blast
qed

lemma seekTarget_chronological_example:
  "chronological [timedView 100 200, timedView 200 300, timedView 400 500]
   \<and> seekTarget 200 [timedView 100 200, timedView 200 300, timedView 400 500] = Some 0
   \<and> seekTarget 350 [timedView 100 200, timedView 200 300, timedView 400 500] = Some 2
   \<and> seekTarget 50 [timedView 100 200, timedView 200 300, timedView 400 500] = Some 0
   \<and> seekTarget 600 [timedView 100 200, timedView 200 300, timedView 400 500] = Some 2"
proof -
  let ?xs = "[timedView 100 200, timedView 200 300, timedView 400 500]"
  note defs = timedView_def contains_def numericBounds_def startOf_def endOf_def
  have c: "chronological ?xs" by (simp add: defs)
  have ne: "?xs \<noteq> []" by simp
  note T = seekTarget_chronological_cases [OF c ne]
  from T [of 200]
  have "0 < length ?xs \<and> contains 200 (?xs ! 0) \<and> (\<forall>j<0. \<not> contains 200 (?xs ! j)) \<longrightarrow>
      seekTarget 200 ?xs = Some 0" by blast
  then have a: "seekTarget 200 ?xs = Some 0" by (simp add: defs)
  from T [of 350]
  have "Suc 1 < length ?xs \<and> of_int (endOf (?xs ! 1)) < (350 :: rat)
        \<and> (350 :: rat) < of_int (startOf (?xs ! Suc 1)) \<longrightarrow>
      seekTarget 350 ?xs = Some (Suc 1)" by blast
  then have b: "seekTarget 350 ?xs = Some 2" by (simp add: defs)
  from T [of 50]
  have "(50 :: rat) < of_int (startOf (hd ?xs)) \<longrightarrow> seekTarget 50 ?xs = Some 0" by blast
  then have d: "seekTarget 50 ?xs = Some 0" by (simp add: defs)
  from T [of 600]
  have "of_int (endOf (last ?xs)) < (600 :: rat) \<longrightarrow> seekTarget 600 ?xs = Some (length ?xs - 1)"
    by blast
  then have e: "seekTarget 600 ?xs = Some 2" by (simp add: defs)
  show ?thesis using c a b d e by simp
qed


end
